theory Spec2Isabelle
  imports Main "HOL-Library.Multiset" "HOL-Library.Word"
begin

section \<open>Values: \<^verbatim>\<open>geecache.ByteView\<close>\<close>

text \<open>
  A Go \<^verbatim>\<open>[]byte\<close> and a Go \<^verbatim>\<open>string\<close> are both sequences of bytes; both are
  modelled as \<^typ>\<open>string\<close> (a list of 8-bit characters). \<^verbatim>\<open>ByteView\<close> is a struct
  with the single field \<^verbatim>\<open>b\<close>; its method \<^verbatim>\<open>Len\<close> is the number of bytes.
  The LRU package stores any \<^verbatim>\<open>Value\<close> (an interface with the one method
  \<^verbatim>\<open>Len() int\<close>); the only implementation in the repository is \<^verbatim>\<open>ByteView\<close>, and
  \<^verbatim>\<open>cache.get\<close> asserts that every stored value is one.
\<close>

record ByteView =
  b :: string

definition ByteView_Len :: "ByteView \<Rightarrow> int" where
  "ByteView_Len v = int (length (b v))"

type_synonym Value = ByteView

section \<open>The LRU store: package \<^verbatim>\<open>lru\<close>\<close>

text \<open>
  \<^verbatim>\<open>Cache\<close> holds a \<^verbatim>\<open>container/list\<close> list of elements and a Go map from keys to
  pointers to those elements; the value of every element is a pointer to an \<^verbatim>\<open>entry\<close>.
  The pointers are kept: an element is an address (a natural number), \<open>ll\<close> is the
  sequence of the elements linked into the list, front first, \<open>elemValue\<close> is the entry
  an element points to, and \<open>nextElem\<close> is the next unused address, so that
  \<^verbatim>\<open>PushFront\<close> makes a new element. The counters \<^verbatim>\<open>maxBytes\<close> and \<^verbatim>\<open>nbytes\<close> are
  \<^verbatim>\<open>int64\<close> in the source and unbounded integers here: they count bytes held in memory,
  which stay far below \<open>2 ^ 63\<close>. The callback \<^verbatim>\<open>OnEvicted\<close> is code of the caller;
  \<open>OnEvicted\<close> records whether one is installed and \<open>evicted\<close> the arguments of each
  call made to it, in order (the callback is taken not to call back into the cache).
\<close>

record entry =
  key :: string
  "value" :: Value

type_synonym Element = nat

record Cache =
  maxBytes :: int
  nbytes :: int
  ll :: "Element list"
  elemValue :: "Element \<Rightarrow> entry"
  nextElem :: Element
  cache :: "string \<rightharpoonup> Element"
  OnEvicted :: bool
  evicted :: "(string \<times> Value) list"

text \<open>
  \<^verbatim>\<open>list.MoveToFront(e)\<close> does nothing when \<^verbatim>\<open>e\<close> is not an element of the list;
  \<^verbatim>\<open>list.Back()\<close> is \<^verbatim>\<open>nil\<close> on the empty list; \<^verbatim>\<open>list.Remove(e)\<close> unlinks \<^verbatim>\<open>e\<close>.
\<close>

definition MoveToFront :: "Element list \<Rightarrow> Element \<Rightarrow> Element list" where
  "MoveToFront l e = (if e \<in> set l then e # remove1 e l else l)"

definition Back :: "Element list \<Rightarrow> Element option" where
  "Back l = (if l = [] then None else Some (last l))"

definition lru_New :: "int \<Rightarrow> bool \<Rightarrow> Cache" where
  "lru_New mb onEvicted =
     \<lparr>maxBytes = mb, nbytes = 0, ll = [],
      elemValue = (\<lambda>_. \<lparr>key = [], value = \<lparr>b = []\<rparr>\<rparr>), nextElem = 0,
      cache = Map.empty, OnEvicted = onEvicted, evicted = []\<rparr>"

text \<open>\<^verbatim>\<open>Get\<close> returns the value and \<^verbatim>\<open>true\<close> on a hit (\<open>Some\<close>), \<^verbatim>\<open>nil, false\<close> on a miss.\<close>

definition Cache_Get :: "Cache \<Rightarrow> string \<Rightarrow> Cache \<times> Value option" where
  "Cache_Get c k =
     (case cache c k of
        Some ele \<Rightarrow> (c\<lparr>ll := MoveToFront (ll c) ele\<rparr>, Some (value (elemValue c ele)))
      | None \<Rightarrow> (c, None))"

text \<open>
  \<^verbatim>\<open>Add\<close> up to its loop, statement by statement. In the branch of a present key the
  source assigns \<^verbatim>\<open>kv.value = value\<close> first and computes
  \<^verbatim>\<open>int64(value.Len()) - int64(kv.value.Len())\<close> afterwards, so \<^verbatim>\<open>kv.value\<close> is read
  from the updated entry (\<open>c2\<close> below).
\<close>

definition Add_store :: "Cache \<Rightarrow> string \<Rightarrow> Value \<Rightarrow> Cache" where
  "Add_store c k v =
     (case cache c k of
        Some ele \<Rightarrow>
          (let c1 = c\<lparr>ll := MoveToFront (ll c) ele\<rparr>;
               c2 = c1\<lparr>elemValue := (elemValue c1)(ele := (elemValue c1 ele)\<lparr>value := v\<rparr>)\<rparr>
           in c2\<lparr>nbytes := nbytes c2 + (ByteView_Len v - ByteView_Len (value (elemValue c2 ele)))\<rparr>)
      | None \<Rightarrow>
          (let ele = nextElem c;
               c1 = c\<lparr>ll := ele # ll c,
                      elemValue := (elemValue c)(ele := \<lparr>key = k, value = v\<rparr>),
                      nextElem := Suc ele\<rparr>;
               c2 = c1\<lparr>cache := (cache c1)(k \<mapsto> ele)\<rparr>
           in c2\<lparr>nbytes := nbytes c2 + (int (length k) + ByteView_Len v)\<rparr>))"

definition RemoveOldest :: "Cache \<Rightarrow> Cache" where
  "RemoveOldest c =
     (case Back (ll c) of
        None \<Rightarrow> c
      | Some ele \<Rightarrow>
          (let c1 = c\<lparr>ll := remove1 ele (ll c)\<rparr>;
               kv = elemValue c1 ele;
               c2 = c1\<lparr>cache := (cache c1)(key kv := None)\<rparr>;
               c3 = c2\<lparr>nbytes := nbytes c2 - (int (length (key kv)) + ByteView_Len (value kv))\<rparr>
           in if OnEvicted c3 then c3\<lparr>evicted := evicted c3 @ [(key kv, value kv)]\<rparr> else c3))"

text \<open>
  The loop that ends \<^verbatim>\<open>Add\<close>: \<^verbatim>\<open>for c.maxBytes != 0 && c.maxBytes < c.nbytes\<close>.
  Nothing in the source bounds it (on an empty list \<^verbatim>\<open>RemoveOldest\<close> changes nothing),
  so it is a partial function: \<open>None\<close> is the loop that never ends.
\<close>

partial_function (option) Add_evict :: "Cache \<Rightarrow> Cache option" where
  "Add_evict c =
     (if maxBytes c \<noteq> 0 \<and> maxBytes c < nbytes c then Add_evict (RemoveOldest c) else Some c)"

definition Cache_Add :: "Cache \<Rightarrow> string \<Rightarrow> Value \<Rightarrow> Cache option" where
  "Cache_Add c k v = Add_evict (Add_store c k v)"

definition Cache_Len :: "Cache \<Rightarrow> int" where
  "Cache_Len c = int (length (ll c))"

text \<open>The bytes of the stored entries: \<^verbatim>\<open>len(key) + value.Len()\<close> summed over the list.\<close>

definition entry_bytes :: "entry \<Rightarrow> int" where
  "entry_bytes kv = int (length (key kv)) + ByteView_Len (value kv)"

definition stored_bytes :: "Cache \<Rightarrow> int" where
  "stored_bytes c = (\<Sum>e\<leftarrow>ll c. entry_bytes (elemValue c e))"

text \<open>
  A sequence of \<^verbatim>\<open>Add\<close> calls; it does not return when one of them does not.
\<close>

fun Add_all :: "Cache \<Rightarrow> (string \<times> Value) list \<Rightarrow> Cache option" where
  "Add_all c [] = Some c"
| "Add_all c ((k, v) # kvs) = Option.bind (Cache_Add c k v) (\<lambda>c'. Add_all c' kvs)"

text \<open>
  The states a program can reach: a new cache, and any state after a call of a method.
\<close>

inductive Cache_reachable :: "Cache \<Rightarrow> bool" where
  reach_New: "Cache_reachable (lru_New mb f)"
| reach_Get: "Cache_reachable c \<Longrightarrow> Cache_reachable (fst (Cache_Get c k))"
| reach_Add: "Cache_reachable c \<Longrightarrow> Cache_Add c k v = Some c' \<Longrightarrow> Cache_reachable c'"
| reach_RemoveOldest: "Cache_reachable c \<Longrightarrow> Cache_reachable (RemoveOldest c)"

text \<open>
  What the loop of \<^verbatim>\<open>Add\<close> relies on: the list links every element once, every
  linked element has been allocated, and a positive \<^verbatim>\<open>maxBytes\<close> bounds \<^verbatim>\<open>nbytes\<close>
  between calls. Every reachable state satisfies it (\<open>Cache_reachable_inv\<close> below).
\<close>

definition Cache_inv :: "Cache \<Rightarrow> bool" where
  "Cache_inv c \<longleftrightarrow>
     distinct (ll c) \<and> (\<forall>e\<in>set (ll c). e < nextElem c) \<and>
     (0 < maxBytes c \<longrightarrow> nbytes c \<le> maxBytes c)"

text \<open>
  The cache after \<^verbatim>\<open>lru_New(10, nil)\<close>, \<^verbatim>\<open>Add("k1", "v1")\<close> and \<^verbatim>\<open>Add("k2", "v2")\<close>.
\<close>

definition lru_two :: Cache where
  "lru_two =
     \<lparr>maxBytes = 10, nbytes = 8, ll = [1, 0],
      elemValue = (\<lambda>_. \<lparr>key = [], value = \<lparr>b = []\<rparr>\<rparr>)
        (0 := \<lparr>key = ''k1'', value = \<lparr>b = ''v1''\<rparr>\<rparr>, 1 := \<lparr>key = ''k2'', value = \<lparr>b = ''v2''\<rparr>\<rparr>),
      nextElem = 2, cache = [''k1'' \<mapsto> 0, ''k2'' \<mapsto> 1], OnEvicted = False, evicted = []\<rparr>"

section \<open>The consistent-hash ring: package \<^verbatim>\<open>consistenthash\<close>\<close>

text \<open>
  \<^verbatim>\<open>Hash\<close> maps bytes to a \<^verbatim>\<open>uint32\<close>. \<^verbatim>\<open>Map\<close> has the hash function, the number of
  virtual nodes per node, the sorted ring \<^verbatim>\<open>keys\<close> and the Go map \<^verbatim>\<open>hashMap\<close> from a
  virtual node's hash to its node. \<^verbatim>\<open>int(m.hash(...))\<close> converts a \<^verbatim>\<open>uint32\<close> to an
  \<^verbatim>\<open>int\<close> of 64 bits, which keeps its unsigned value (\<open>uint\<close>).
\<close>

type_synonym Hash = "string \<Rightarrow> 32 word"

record Map =
  hash :: Hash
  replicas :: int
  keys :: "int list"
  hashMap :: "int \<rightharpoonup> string"

text \<open>
  \<^verbatim>\<open>New\<close> takes \<^verbatim>\<open>crc32.ChecksumIEEE\<close> of the Go library when no hash function is
  given; that function is a parameter here.
\<close>

definition consistenthash_New :: "Hash \<Rightarrow> int \<Rightarrow> Hash option \<Rightarrow> Map" where
  "consistenthash_New ChecksumIEEE r fn =
     \<lparr>hash = (case fn of None \<Rightarrow> ChecksumIEEE | Some f \<Rightarrow> f), replicas = r,
      keys = [], hashMap = Map.empty\<rparr>"

text \<open>\<^verbatim>\<open>strconv.Itoa\<close>: the decimal digits of an integer, with a sign when negative.\<close>

fun nat_decimal :: "nat \<Rightarrow> string" where
  "nat_decimal n =
     (if n < 10 then [''0123456789'' ! n]
      else nat_decimal (n div 10) @ [''0123456789'' ! (n mod 10)])"

definition Itoa :: "int \<Rightarrow> string" where
  "Itoa i = (if i < 0 then CHR ''-'' # nat_decimal (nat (- i)) else nat_decimal (nat i))"

text \<open>
  \<^verbatim>\<open>Add\<close>: for every node and every \<^verbatim>\<open>i\<close> from 0 below \<^verbatim>\<open>m.replicas\<close>, the hash of
  \<^verbatim>\<open>strconv.Itoa(i) + key\<close> is appended to \<^verbatim>\<open>m.keys\<close> and mapped to the node
  (\<open>Add_replica\<close> is the body of the inner loop); \<^verbatim>\<open>sort.Ints\<close> ends it.
\<close>

definition virtual_hash :: "Map \<Rightarrow> string \<Rightarrow> int \<Rightarrow> int" where
  "virtual_hash m node i = uint (hash m (Itoa i @ node))"

definition Add_replica :: "string \<Rightarrow> int \<Rightarrow> Map \<Rightarrow> Map" where
  "Add_replica node i m =
     (let h = virtual_hash m node i
      in m\<lparr>keys := keys m @ [h], hashMap := (hashMap m)(h \<mapsto> node)\<rparr>)"

definition replica_indices :: "Map \<Rightarrow> int list" where
  "replica_indices m = map int [0..<nat (replicas m)]"

definition Map_Add :: "Map \<Rightarrow> string list \<Rightarrow> Map" where
  "Map_Add m ks =
     (let m' = fold (\<lambda>node m. fold (Add_replica node) (replica_indices m) m) ks m
      in m'\<lparr>keys := sort (keys m')\<rparr>)"

text \<open>
  \<^verbatim>\<open>sort.Search(n, f)\<close> of the Go library is a binary search: with \<^verbatim>\<open>i, j := 0, n\<close>,
  while \<^verbatim>\<open>i < j\<close> it takes \<^verbatim>\<open>h\<close> as the middle of \<^verbatim>\<open>i\<close> and \<^verbatim>\<open>j\<close> and continues with
  \<^verbatim>\<open>i = h + 1\<close> when \<^verbatim>\<open>f(h)\<close> is false and with \<^verbatim>\<open>j = h\<close> otherwise; it returns \<^verbatim>\<open>i\<close>.
  \<^verbatim>\<open>sort.SearchInts(a, x)\<close> is \<^verbatim>\<open>sort.Search(len(a), a[i] >= x)\<close>. The function \<^verbatim>\<open>f\<close> is
  only called on indices below \<^verbatim>\<open>n\<close>.
\<close>

function Search_loop :: "(nat \<Rightarrow> bool) \<Rightarrow> nat \<Rightarrow> nat \<Rightarrow> nat" where
  "Search_loop f i j =
     (if i < j then
        (let h = (i + j) div 2
         in if \<not> f h then Search_loop f (h + 1) j else Search_loop f i h)
      else i)"
  by pat_completeness auto
termination
  by (relation "measure (\<lambda>(f, i, j). j - i)") auto

declare Search_loop.simps [simp del]

definition Search :: "nat \<Rightarrow> (nat \<Rightarrow> bool) \<Rightarrow> nat" where
  "Search n f = Search_loop f 0 n"

definition SearchInts :: "int list \<Rightarrow> int \<Rightarrow> nat" where
  "SearchInts a x = Search (length a) (\<lambda>i. a ! i \<ge> x)"

text \<open>
  \<^verbatim>\<open>Get\<close>. Reading a Go map at a key it does not hold gives the zero value, here the
  empty string (\<open>hashMap_at\<close>).
\<close>

definition hashMap_at :: "Map \<Rightarrow> int \<Rightarrow> string" where
  "hashMap_at m h = (case hashMap m h of None \<Rightarrow> [] | Some node \<Rightarrow> node)"

definition Map_Get :: "Map \<Rightarrow> string \<Rightarrow> string" where
  "Map_Get m k =
     (if length (keys m) = 0 then []
      else
        (let h = uint (hash m k);
             idx = Search (length (keys m)) (\<lambda>i. keys m ! i \<ge> h)
         in hashMap_at m (keys m ! (idx mod length (keys m)))))"

text \<open>
  \<^verbatim>\<open>Remove\<close>. The slice expression \<^verbatim>\<open>m.keys[idx+1:]\<close> panics when
  \<^verbatim>\<open>idx + 1 > len(m.keys)\<close>; otherwise \<^verbatim>\<open>append(m.keys[:idx], m.keys[idx+1:]...)\<close> is the
  slice without the element at \<^verbatim>\<open>idx\<close>. \<open>Remove_replica\<close> is the body of the loop and
  \<open>Remove_loop\<close> runs it over the given indices, stopping at a panic.
\<close>

datatype panic = SliceBoundsOutOfRange

definition Remove_replica :: "string \<Rightarrow> int \<Rightarrow> Map \<Rightarrow> panic + Map" where
  "Remove_replica node i m =
     (let h = virtual_hash m node i;
          idx = SearchInts (keys m) h
      in if length (keys m) < idx + 1 then Inl SliceBoundsOutOfRange
         else Inr (m\<lparr>keys := take idx (keys m) @ drop (idx + 1) (keys m),
                     hashMap := (hashMap m)(h := None)\<rparr>))"

fun Remove_loop :: "string \<Rightarrow> int list \<Rightarrow> Map \<Rightarrow> panic + Map" where
  "Remove_loop node [] m = Inr m"
| "Remove_loop node (i # is) m =
     (case Remove_replica node i m of Inl e \<Rightarrow> Inl e | Inr m' \<Rightarrow> Remove_loop node is m')"

definition Map_Remove :: "Map \<Rightarrow> string \<Rightarrow> panic + Map" where
  "Map_Remove m node = Remove_loop node (replica_indices m) m"

text \<open>The rings a program can reach.\<close>

inductive Map_reachable :: "Map \<Rightarrow> bool" where
  reach_ring_New: "Map_reachable (consistenthash_New ChecksumIEEE r fn)"
| reach_ring_Add: "Map_reachable m \<Longrightarrow> Map_reachable (Map_Add m ks)"
| reach_ring_Remove: "Map_reachable m \<Longrightarrow> Map_Remove m node = Inr m' \<Longrightarrow> Map_reachable m'"

text \<open>
  A ring to compute with: the hash function reads its argument as a decimal number,
  there are 3 virtual nodes per node, and the nodes \<^verbatim>\<open>"6"\<close>, \<^verbatim>\<open>"4"\<close> and \<^verbatim>\<open>"2"\<close> are added,
  so that the ring is 2, 4, 6, 12, 14, 16, 22, 24, 26.
\<close>

definition digit_value :: "char \<Rightarrow> nat" where
  "digit_value c = of_char c - 48"

definition decimal_hash :: Hash where
  "decimal_hash s = of_nat (fold (\<lambda>c n. 10 * n + digit_value c) s 0)"

definition ring642 :: Map where
  "ring642 = Map_Add (consistenthash_New decimal_hash 3 (Some decimal_hash)) [''6'', ''4'', ''2'']"


section \<open>The cache wrapper and the group: package \<^verbatim>\<open>geecache\<close>\<close>

text \<open>
  \<^verbatim>\<open>cloneBytes\<close> makes a slice of the same length and copies the bytes into it
  (\<^verbatim>\<open>copy\<close> copies as many elements as the shorter slice has).
\<close>

definition copy_bytes :: "string \<Rightarrow> string \<Rightarrow> string" where
  "copy_bytes dst src =
     take (min (length dst) (length src)) src @ drop (min (length dst) (length src)) dst"

definition cloneBytes :: "string \<Rightarrow> string" where
  "cloneBytes bs = copy_bytes (replicate (length bs) (CHR 0x00)) bs"

text \<open>
  \<^verbatim>\<open>cache\<close> wraps an LRU store that is created on the first \<^verbatim>\<open>add\<close>; \<^verbatim>\<open>lru = nil\<close> is
  \<open>None\<close>. Its mutex is held for the whole of \<^verbatim>\<open>add\<close> and of \<^verbatim>\<open>get\<close>, each of which is
  one step here. \<^verbatim>\<open>add\<close> returns when \<^verbatim>\<open>lru.Add\<close> does.
\<close>

record cache_t =
  lru :: "Cache option"
  cacheBytes :: int

definition cache_add :: "cache_t \<Rightarrow> string \<Rightarrow> ByteView \<Rightarrow> cache_t option" where
  "cache_add c k v =
     (let c1 = (if lru c = None then c\<lparr>lru := Some (lru_New (cacheBytes c) False)\<rparr> else c)
      in case lru c1 of
           None \<Rightarrow> None
         | Some l \<Rightarrow> map_option (\<lambda>l'. c1\<lparr>lru := Some l'\<rparr>) (Cache_Add l k v))"

definition cache_get :: "cache_t \<Rightarrow> string \<Rightarrow> cache_t \<times> ByteView option" where
  "cache_get c k =
     (case lru c of
        None \<Rightarrow> (c, None)
      | Some l \<Rightarrow>
          (case Cache_Get l k of
             (l', Some v) \<Rightarrow> (c\<lparr>lru := Some l'\<rparr>, Some v)
           | (l', None) \<Rightarrow> (c\<lparr>lru := Some l'\<rparr>, None)))"

text \<open>
  A group has a name, the loader of the origin (\<^verbatim>\<open>Getter\<close>), its cache and, once
  registered, a \<^verbatim>\<open>PeerPicker\<close>. The loader and the peers are code of the caller: they
  are functions from their arguments to bytes or an error (a Go \<^verbatim>\<open>error\<close> carries a
  message), and every call the group makes to them, to its cache and to the log is
  recorded as an event, in order. \<^verbatim>\<open>Group.getFromPeer\<close> calls a peer as
  \<^verbatim>\<open>peer.Get(g.name, key)\<close> with bytes and an error as results; that is the
  \<^verbatim>\<open>PeerGetter\<close> modelled.
\<close>

datatype error = Error string

type_synonym Getter = "string \<Rightarrow> error + string"
type_synonym PeerGetter = "string \<Rightarrow> string \<Rightarrow> error + string"
type_synonym PeerPicker = "string \<Rightarrow> PeerGetter option"

record Group =
  name :: string
  getter :: Getter
  mainCache :: cache_t
  peers :: "PeerPicker option"

datatype event =
    CacheGet string
  | CacheAdd string ByteView
  | PickPeer string
  | PeerGet string string
  | GetterGet string
  | LogHit
  | LogPeerFailed error

type_synonym outcome = "((error + ByteView) \<times> Group \<times> event list) option"

definition after :: "event list \<Rightarrow> outcome \<Rightarrow> outcome" where
  "after evs r = map_option (\<lambda>(res, g, tr). (res, g, evs @ tr)) r"

definition Group_getFromPeer :: "Group \<Rightarrow> PeerGetter \<Rightarrow> string \<Rightarrow> error + ByteView" where
  "Group_getFromPeer g peer k =
     (case peer (name g) k of Inl err \<Rightarrow> Inl err | Inr bytes \<Rightarrow> Inr \<lparr>b = bytes\<rparr>)"

definition Group_populateCache :: "Group \<Rightarrow> string \<Rightarrow> ByteView \<Rightarrow> Group option" where
  "Group_populateCache g k v =
     map_option (\<lambda>c. g\<lparr>mainCache := c\<rparr>) (cache_add (mainCache g) k v)"

definition Group_getLocally :: "Group \<Rightarrow> string \<Rightarrow> outcome" where
  "Group_getLocally g k =
     (case getter g k of
        Inl err \<Rightarrow> Some (Inl err, g, [GetterGet k])
      | Inr bytes \<Rightarrow>
          (let v = \<lparr>b = cloneBytes bytes\<rparr>
           in map_option (\<lambda>g'. (Inr v, g', [GetterGet k, CacheAdd k v]))
                (Group_populateCache g k v)))"

definition Group_load :: "Group \<Rightarrow> string \<Rightarrow> outcome" where
  "Group_load g k =
     (case peers g of
        None \<Rightarrow> Group_getLocally g k
      | Some picker \<Rightarrow>
          (case picker k of
             None \<Rightarrow> after [PickPeer k] (Group_getLocally g k)
           | Some peer \<Rightarrow>
               (case Group_getFromPeer g peer k of
                  Inr v \<Rightarrow> Some (Inr v, g, [PickPeer k, PeerGet (name g) k])
                | Inl err \<Rightarrow>
                    after [PickPeer k, PeerGet (name g) k, LogPeerFailed err]
                      (Group_getLocally g k))))"

definition Group_Get :: "Group \<Rightarrow> string \<Rightarrow> outcome" where
  "Group_Get g k =
     (if k = [] then Some (Inl (Error ''key is required''), g, [])
      else
        (case cache_get (mainCache g) k of
           (c, Some v) \<Rightarrow> Some (Inr v, g\<lparr>mainCache := c\<rparr>, [CacheGet k, LogHit])
         | (c, None) \<Rightarrow> after [CacheGet k] (Group_load (g\<lparr>mainCache := c\<rparr>) k)))"








subsection \<open>Concurrent calls of \<^verbatim>\<open>Group.Get\<close>\<close>

text \<open>
  Goroutines that call \<^verbatim>\<open>Get\<close> on one group, as an interleaving: every goroutine has a
  position in \<^verbatim>\<open>Get\<close>, a schedule names the goroutine that takes the next step, and
  the group is shared. The steps are the key check, \<^verbatim>\<open>mainCache.get\<close> (one step: the
  mutex of the cache is held throughout), the entry into \<^verbatim>\<open>load\<close> with the choice of
  a peer, the return of the call to the peer, the call of the loader, its return, and
  \<^verbatim>\<open>populateCache\<close> (one step, as \<^verbatim>\<open>mainCache.add\<close> holds the mutex). Between the call
  of a peer or of the loader and its return other goroutines run. A goroutine is in
  the load path of a key (\<open>loading\<close>) from the entry into \<^verbatim>\<open>load\<close> to its return.
\<close>

datatype Get_pc =
    Get_not_called
  | Get_entry string
  | Get_cache string
  | Get_load string
  | Get_peer string
  | Get_local string
  | Get_origin string
  | Get_populate string ByteView
  | Get_returned "error + ByteView"

datatype Get_input = Call_Get string | Get_step

record Group_run =
  shared :: Group
  running :: "nat \<Rightarrow> Get_pc"

definition Group_start :: "Group \<Rightarrow> Group_run" where
  "Group_start g = \<lparr>shared = g, running = (\<lambda>_. Get_not_called)\<rparr>"

definition goto :: "nat \<Rightarrow> Get_pc \<Rightarrow> Group_run \<Rightarrow> Group_run" where
  "goto t p s = s\<lparr>running := (running s)(t := p)\<rparr>"

definition Get_next :: "nat \<Rightarrow> Get_input \<Rightarrow> Group_run \<Rightarrow> Group_run option" where
  "Get_next t a s =
     (let g = shared s in
      case (running s t, a) of
        (Get_not_called, Call_Get k) \<Rightarrow> Some (goto t (Get_entry k) s)
      | (Get_entry k, Get_step) \<Rightarrow>
          Some (goto t (if k = [] then Get_returned (Inl (Error ''key is required''))
                        else Get_cache k) s)
      | (Get_cache k, Get_step) \<Rightarrow>
          (case cache_get (mainCache g) k of
             (c, Some v) \<Rightarrow>
               Some (goto t (Get_returned (Inr v)) (s\<lparr>shared := g\<lparr>mainCache := c\<rparr>\<rparr>))
           | (c, None) \<Rightarrow> Some (goto t (Get_load k) (s\<lparr>shared := g\<lparr>mainCache := c\<rparr>\<rparr>)))
      | (Get_load k, Get_step) \<Rightarrow>
          (case peers g of
             None \<Rightarrow> Some (goto t (Get_local k) s)
           | Some picker \<Rightarrow>
               (case picker k of
                  None \<Rightarrow> Some (goto t (Get_local k) s)
                | Some peer \<Rightarrow> Some (goto t (Get_peer k) s)))
      | (Get_peer k, Get_step) \<Rightarrow>
          (case peers g of
             None \<Rightarrow> None
           | Some picker \<Rightarrow>
               (case picker k of
                  None \<Rightarrow> None
                | Some peer \<Rightarrow>
                    (case Group_getFromPeer g peer k of
                       Inr v \<Rightarrow> Some (goto t (Get_returned (Inr v)) s)
                     | Inl err \<Rightarrow> Some (goto t (Get_local k) s))))
      | (Get_local k, Get_step) \<Rightarrow> Some (goto t (Get_origin k) s)
      | (Get_origin k, Get_step) \<Rightarrow>
          (case getter g k of
             Inl err \<Rightarrow> Some (goto t (Get_returned (Inl err)) s)
           | Inr bytes \<Rightarrow> Some (goto t (Get_populate k \<lparr>b = cloneBytes bytes\<rparr>) s))
      | (Get_populate k v, Get_step) \<Rightarrow>
          map_option (\<lambda>g'. goto t (Get_returned (Inr v)) (s\<lparr>shared := g'\<rparr>))
            (Group_populateCache g k v)
      | _ \<Rightarrow> None)"








text \<open>
  A goroutine running alone until it returns (at most \<open>n\<close> steps), and what it returns.
\<close>

fun Get_alone :: "nat \<Rightarrow> nat \<Rightarrow> Group_run \<Rightarrow> Group_run option" where
  "Get_alone 0 t s = None"
| "Get_alone (Suc n) t s =
     (case running s t of
        Get_returned r \<Rightarrow> Some s
      | _ \<Rightarrow> Option.bind (Get_next t Get_step s) (Get_alone n t))"

definition Get_result :: "nat \<Rightarrow> Group_run \<Rightarrow> ((error + ByteView) \<times> Group) option" where
  "Get_result t s = (case running s t of Get_returned r \<Rightarrow> Some (r, shared s) | _ \<Rightarrow> None)"

section \<open>The single-flight coalescer: package \<^verbatim>\<open>singleflight\<close>\<close>

text \<open>
  \<^verbatim>\<open>Group.Do\<close> is run by goroutines, as an interleaving of the steps of \<^verbatim>\<open>Do\<close>: every
  goroutine has a position in \<^verbatim>\<open>Do\<close> (with its key and, once it has one, its call),
  and a schedule names the goroutine that takes the next step. The program has no
  data race (the map is read and written under the mutex, the results of a call are
  written before \<^verbatim>\<open>wg.Done\<close> and read after \<^verbatim>\<open>wg.Wait\<close>), so its executions are the
  interleavings of its statements.

  The state: \<open>sf_mu\<close> is the goroutine that holds the mutex, \<open>sf_m\<close> the map from keys to
  calls (a call is an address; \<^verbatim>\<open>nil\<close> and the empty map are the same here),
  \<open>call_wg\<close>, \<open>call_val\<close> and \<open>call_err\<close> the fields of each call (the counter of its
  \<^verbatim>\<open>WaitGroup\<close>, and \<^verbatim>\<open>nil\<close> as \<open>None\<close>), \<open>nextCall\<close> the next unused address.
  The function \<^verbatim>\<open>fn\<close> is code of the caller: the schedule gives the pair it returns
  (a \<^verbatim>\<open>fn\<close> that panics or never returns takes no further step). Its calls and returns
  are recorded in \<open>sf_events\<close>.

  The positions, by line of \<^verbatim>\<open>Do\<close>: \<open>Lock1\<close> before \<^verbatim>\<open>g.mu.Lock()\<close>; \<open>Lookup\<close> at the
  lookup \<^verbatim>\<open>g.m[key]\<close>; with an entry found, \<open>Unlock_found\<close>, \<open>Wait\<close> (which needs the
  counter at 0) and \<open>Return_shared\<close>; with none, \<open>New_call\<close> (\<^verbatim>\<open>new(call)\<close>,
  \<^verbatim>\<open>c.wg.Add(1)\<close>, \<^verbatim>\<open>g.m[key] = c\<close>), \<open>Unlock_new\<close>, \<open>Call_fn\<close>, \<open>In_fn\<close> while \<^verbatim>\<open>fn\<close>
  runs, \<open>Done\<close> before \<^verbatim>\<open>c.wg.Done()\<close> (which panics on a counter at 0), \<open>Lock2\<close>,
  \<open>Delete\<close>, \<open>Unlock2\<close> and \<open>Return_own\<close>; \<open>Returned\<close> with the call used and the pair
  returned. \<^verbatim>\<open>Lock\<close> needs the mutex free.
\<close>

type_synonym 'v result = "'v option \<times> error option"

datatype 'v Do_pc =
    NotCalled
  | Lock1 string
  | Lookup string
  | Unlock_found string nat
  | Wait string nat
  | Return_shared string nat
  | New_call string
  | Unlock_new string nat
  | Call_fn string nat
  | In_fn string nat
  | Done string nat
  | Lock2 string nat
  | Delete string nat
  | Unlock2 string nat
  | Return_own string nat
  | Returned string nat "'v result"

datatype 'v sf_event =
    FnStart nat string nat
  | FnReturn nat string nat "'v result"

record 'v sf_Group =
  sf_mu :: "nat option"
  sf_m :: "string \<rightharpoonup> nat"
  call_wg :: "nat \<Rightarrow> nat"
  call_val :: "nat \<Rightarrow> 'v option"
  call_err :: "nat \<Rightarrow> error option"
  nextCall :: nat
  goroutine :: "nat \<Rightarrow> 'v Do_pc"
  sf_events :: "'v sf_event list"

datatype 'v Do_input = Call_Do string | Step | Fn_returns "'v result"

definition sf_init :: "'v sf_Group" where
  "sf_init =
     \<lparr>sf_mu = None, sf_m = Map.empty, call_wg = (\<lambda>_. 0), call_val = (\<lambda>_. None),
      call_err = (\<lambda>_. None), nextCall = 0, goroutine = (\<lambda>_. NotCalled), sf_events = []\<rparr>"

definition jump :: "nat \<Rightarrow> 'v Do_pc \<Rightarrow> 'v sf_Group \<Rightarrow> 'v sf_Group" where
  "jump t p s = s\<lparr>goroutine := (goroutine s)(t := p)\<rparr>"

definition Do_step :: "nat \<Rightarrow> 'v Do_input \<Rightarrow> 'v sf_Group \<Rightarrow> 'v sf_Group option" where
  "Do_step t a s =
     (case (goroutine s t, a) of
        (NotCalled, Call_Do k) \<Rightarrow> Some (jump t (Lock1 k) s)
      | (Lock1 k, Step) \<Rightarrow>
          (if sf_mu s = None then Some (jump t (Lookup k) (s\<lparr>sf_mu := Some t\<rparr>)) else None)
      | (Lookup k, Step) \<Rightarrow>
          (case sf_m s k of
             Some c \<Rightarrow> Some (jump t (Unlock_found k c) s)
           | None \<Rightarrow> Some (jump t (New_call k) s))
      | (Unlock_found k c, Step) \<Rightarrow> Some (jump t (Wait k c) (s\<lparr>sf_mu := None\<rparr>))
      | (Wait k c, Step) \<Rightarrow>
          (if call_wg s c = 0 then Some (jump t (Return_shared k c) s) else None)
      | (Return_shared k c, Step) \<Rightarrow> Some (jump t (Returned k c (call_val s c, call_err s c)) s)
      | (New_call k, Step) \<Rightarrow>
          (let c = nextCall s
           in Some (jump t (Unlock_new k c)
                (s\<lparr>nextCall := Suc c, call_wg := (call_wg s)(c := 1),
                   call_val := (call_val s)(c := None), call_err := (call_err s)(c := None),
                   sf_m := (sf_m s)(k \<mapsto> c)\<rparr>)))
      | (Unlock_new k c, Step) \<Rightarrow> Some (jump t (Call_fn k c) (s\<lparr>sf_mu := None\<rparr>))
      | (Call_fn k c, Step) \<Rightarrow>
          Some (jump t (In_fn k c) (s\<lparr>sf_events := sf_events s @ [FnStart t k c]\<rparr>))
      | (In_fn k c, Fn_returns r) \<Rightarrow>
          Some (jump t (Done k c)
            (s\<lparr>call_val := (call_val s)(c := fst r), call_err := (call_err s)(c := snd r),
               sf_events := sf_events s @ [FnReturn t k c r]\<rparr>))
      | (Done k c, Step) \<Rightarrow>
          (if call_wg s c = 0 then None
           else Some (jump t (Lock2 k c) (s\<lparr>call_wg := (call_wg s)(c := call_wg s c - 1)\<rparr>)))
      | (Lock2 k c, Step) \<Rightarrow>
          (if sf_mu s = None then Some (jump t (Delete k c) (s\<lparr>sf_mu := Some t\<rparr>)) else None)
      | (Delete k c, Step) \<Rightarrow> Some (jump t (Unlock2 k c) (s\<lparr>sf_m := (sf_m s)(k := None)\<rparr>))
      | (Unlock2 k c, Step) \<Rightarrow> Some (jump t (Return_own k c) (s\<lparr>sf_mu := None\<rparr>))
      | (Return_own k c, Step) \<Rightarrow> Some (jump t (Returned k c (call_val s c, call_err s c)) s)
      | _ \<Rightarrow> None)"

fun sf_run :: "'v sf_Group \<Rightarrow> (nat \<times> 'v Do_input) list \<Rightarrow> 'v sf_Group option" where
  "sf_run s [] = Some s"
| "sf_run s ((t, a) # sched) = Option.bind (Do_step t a s) (\<lambda>s'. sf_run s' sched)"

definition sf_reachable :: "'v sf_Group \<Rightarrow> bool" where
  "sf_reachable s \<longleftrightarrow> (\<exists>sched. sf_run sf_init sched = Some s)"


text \<open>
  What a position says of its goroutine: that it holds the mutex (\<open>holds_mu\<close>); the
  key and the call it has put into the map and not yet deleted (\<open>in_flight\<close>); the call
  whose \<^verbatim>\<open>fn\<close> it is about to run, runs or has run (\<open>executes\<close>); the call in its
  variable \<^verbatim>\<open>c\<close> (\<open>call_of\<close>); the call whose counter it has raised and not yet lowered
  (\<open>armed\<close>); the call whose \<^verbatim>\<open>fn\<close> has not returned yet (\<open>unreturned\<close>); the call
  whose results it has stored (\<open>stored\<close>).

  The invariants of the reachable states: a goroutine in a critical section holds the
  mutex; the map has the call of every goroutine that is between its insertion and
  its deletion; a goroutine about to insert has found no entry; no two goroutines
  execute the same call; every call in use is allocated; the counter of a call is 1
  from its creation to \<^verbatim>\<open>wg.Done\<close>; \<^verbatim>\<open>fn\<close> has not returned for a call before it
  returns; the events are of allocated calls; after \<^verbatim>\<open>fn\<close> returned, the call holds
  the pair it returned; so does every allocated call whose counter is 0; \<^verbatim>\<open>fn\<close> returns
  once for a call; where \<^verbatim>\<open>wg.Wait\<close> has returned the counter is 0; and a pair returned
  from a call is the pair the \<^verbatim>\<open>fn\<close> of that call returned.
\<close>

fun holds_mu :: "'v Do_pc \<Rightarrow> bool" where
  "holds_mu (Lookup k) = True"
| "holds_mu (Unlock_found k c) = True"
| "holds_mu (New_call k) = True"
| "holds_mu (Unlock_new k c) = True"
| "holds_mu (Delete k c) = True"
| "holds_mu (Unlock2 k c) = True"
| "holds_mu _ = False"

fun in_flight :: "'v Do_pc \<Rightarrow> (string \<times> nat) option" where
  "in_flight (Unlock_new k c) = Some (k, c)"
| "in_flight (Call_fn k c) = Some (k, c)"
| "in_flight (In_fn k c) = Some (k, c)"
| "in_flight (Done k c) = Some (k, c)"
| "in_flight (Lock2 k c) = Some (k, c)"
| "in_flight (Delete k c) = Some (k, c)"
| "in_flight _ = None"

fun executes :: "'v Do_pc \<Rightarrow> nat option" where
  "executes (Unlock_new k c) = Some c"
| "executes (Call_fn k c) = Some c"
| "executes (In_fn k c) = Some c"
| "executes (Done k c) = Some c"
| "executes (Lock2 k c) = Some c"
| "executes (Delete k c) = Some c"
| "executes (Unlock2 k c) = Some c"
| "executes (Return_own k c) = Some c"
| "executes _ = None"

fun call_of :: "'v Do_pc \<Rightarrow> nat option" where
  "call_of NotCalled = None"
| "call_of (Lock1 k) = None"
| "call_of (Lookup k) = None"
| "call_of (New_call k) = None"
| "call_of (Unlock_found k c) = Some c"
| "call_of (Wait k c) = Some c"
| "call_of (Return_shared k c) = Some c"
| "call_of (Unlock_new k c) = Some c"
| "call_of (Call_fn k c) = Some c"
| "call_of (In_fn k c) = Some c"
| "call_of (Done k c) = Some c"
| "call_of (Lock2 k c) = Some c"
| "call_of (Delete k c) = Some c"
| "call_of (Unlock2 k c) = Some c"
| "call_of (Return_own k c) = Some c"
| "call_of (Returned k c r) = Some c"

definition inv_mu :: "'v sf_Group \<Rightarrow> bool" where
  "inv_mu s \<longleftrightarrow> (\<forall>t. holds_mu (goroutine s t) \<longrightarrow> sf_mu s = Some t)"

definition inv_entry :: "'v sf_Group \<Rightarrow> bool" where
  "inv_entry s \<longleftrightarrow> (\<forall>t k c. in_flight (goroutine s t) = Some (k, c) \<longrightarrow> sf_m s k = Some c)"

definition inv_absent :: "'v sf_Group \<Rightarrow> bool" where
  "inv_absent s \<longleftrightarrow> (\<forall>t k. goroutine s t = New_call k \<longrightarrow> sf_m s k = None)"

definition inv_one :: "'v sf_Group \<Rightarrow> bool" where
  "inv_one s \<longleftrightarrow>
     (\<forall>t t' c. executes (goroutine s t) = Some c \<and> executes (goroutine s t') = Some c \<longrightarrow> t = t')"

definition inv_alloc :: "'v sf_Group \<Rightarrow> bool" where
  "inv_alloc s \<longleftrightarrow>
     (\<forall>t c. call_of (goroutine s t) = Some c \<longrightarrow> c < nextCall s) \<and>
     (\<forall>k c. sf_m s k = Some c \<longrightarrow> c < nextCall s)"


fun armed :: "'v Do_pc \<Rightarrow> nat option" where
  "armed (Unlock_new k c) = Some c"
| "armed (Call_fn k c) = Some c"
| "armed (In_fn k c) = Some c"
| "armed (Done k c) = Some c"
| "armed _ = None"

fun unreturned :: "'v Do_pc \<Rightarrow> nat option" where
  "unreturned (Unlock_new k c) = Some c"
| "unreturned (Call_fn k c) = Some c"
| "unreturned (In_fn k c) = Some c"
| "unreturned _ = None"

fun stored :: "'v Do_pc \<Rightarrow> (string \<times> nat) option" where
  "stored (Done k c) = Some (k, c)"
| "stored (Lock2 k c) = Some (k, c)"
| "stored (Delete k c) = Some (k, c)"
| "stored (Unlock2 k c) = Some (k, c)"
| "stored (Return_own k c) = Some (k, c)"
| "stored _ = None"

definition inv_armed :: "'v sf_Group \<Rightarrow> bool" where
  "inv_armed s \<longleftrightarrow> (\<forall>t c. armed (goroutine s t) = Some c \<longrightarrow> call_wg s c = 1)"

definition inv_unreturned :: "'v sf_Group \<Rightarrow> bool" where
  "inv_unreturned s \<longleftrightarrow>
     (\<forall>t c t' k r. unreturned (goroutine s t) = Some c \<longrightarrow> FnReturn t' k c r \<notin> set (sf_events s))"

fun event_call :: "'v sf_event \<Rightarrow> nat" where
  "event_call (FnStart t k c) = c"
| "event_call (FnReturn t k c r) = c"

definition inv_events :: "'v sf_Group \<Rightarrow> bool" where
  "inv_events s \<longleftrightarrow> (\<forall>ev\<in>set (sf_events s). event_call ev < nextCall s)"

definition inv_stored :: "'v sf_Group \<Rightarrow> bool" where
  "inv_stored s \<longleftrightarrow>
     (\<forall>t k c. stored (goroutine s t) = Some (k, c) \<longrightarrow>
        FnReturn t k c (call_val s c, call_err s c) \<in> set (sf_events s))"

definition inv_released :: "'v sf_Group \<Rightarrow> bool" where
  "inv_released s \<longleftrightarrow>
     (\<forall>c. c < nextCall s \<and> call_wg s c = 0 \<longrightarrow>
        (\<exists>t k. FnReturn t k c (call_val s c, call_err s c) \<in> set (sf_events s)))"

definition inv_unique :: "'v sf_Group \<Rightarrow> bool" where
  "inv_unique s \<longleftrightarrow>
     (\<forall>t k r t' k' r' c.
        FnReturn t k c r \<in> set (sf_events s) \<and> FnReturn t' k' c r' \<in> set (sf_events s) \<longrightarrow>
        t = t' \<and> k = k' \<and> r = r')"

definition inv_waited :: "'v sf_Group \<Rightarrow> bool" where
  "inv_waited s \<longleftrightarrow> (\<forall>t k c. goroutine s t = Return_shared k c \<longrightarrow> call_wg s c = 0)"

definition inv_returned :: "'v sf_Group \<Rightarrow> bool" where
  "inv_returned s \<longleftrightarrow>
     (\<forall>t k c r. goroutine s t = Returned k c r \<longrightarrow>
        (\<exists>t' k'. FnReturn t' k' c r \<in> set (sf_events s)))"

definition sf_inv :: "'v sf_Group \<Rightarrow> bool" where
  "sf_inv s \<longleftrightarrow>
     inv_mu s \<and> inv_entry s \<and> inv_absent s \<and> inv_one s \<and> inv_alloc s \<and> inv_armed s \<and>
     inv_unreturned s \<and> inv_events s \<and> inv_stored s \<and> inv_released s \<and> inv_unique s \<and>
     inv_waited s \<and> inv_returned s"

text \<open>
  Schedules to compute with: goroutine 0 calls \<^verbatim>\<open>Do("k", fn)\<close> and runs up to \<^verbatim>\<open>fn\<close>,
  goroutine 1 calls \<^verbatim>\<open>Do("k", fn)\<close> and takes the mutex; then both run to their
  returns, \<^verbatim>\<open>fn\<close> returning \<^verbatim>\<open>"v"\<close>; then goroutine 2 calls \<^verbatim>\<open>Do("k", fn)\<close>.
\<close>

definition sched_join :: "(nat \<times> string Do_input) list" where
  "sched_join =
     [(0, Call_Do ''k''), (0, Step), (0, Step), (0, Step), (0, Step), (0, Step),
      (1, Call_Do ''k''), (1, Step)]"

definition sched_done :: "(nat \<times> string Do_input) list" where
  "sched_done =
     sched_join @
     [(1, Step), (1, Step), (0, Fn_returns (Some ''v'', None)), (0, Step), (1, Step), (1, Step),
      (0, Step), (0, Step), (0, Step), (0, Step)]"

definition sched_again :: "(nat \<times> string Do_input) list" where
  "sched_again =
     sched_done @ [(2, Call_Do ''k''), (2, Step), (2, Step), (2, Step), (2, Step), (2, Step)]"

section \<open>The LRU store: properties\<close>

lemmas lru_defs = lru_New_def Cache_Add_def Add_store_def RemoveOldest_def Cache_Get_def
  MoveToFront_def Back_def ByteView_Len_def Cache_Len_def stored_bytes_def entry_bytes_def
  Let_def

lemma mset_MoveToFront: "mset (MoveToFront l e) = mset l"
  by (simp add: MoveToFront_def)

lemma length_MoveToFront: "length (MoveToFront l e) = length l"
  using mset_MoveToFront [of l e] by (metis size_mset)

text \<open>
  Claim C10. \<^verbatim>\<open>Get\<close> changes nothing but the order of the list, on a hit and on a miss:
  \<^verbatim>\<open>nbytes\<close>, \<^verbatim>\<open>Len()\<close>, the map from keys to elements (so its key set), and the entry of
  every element (so every stored value) are as before; the list holds the same elements.
\<close>

theorem Cache_Get_frame:
  "nbytes (fst (Cache_Get c k)) = nbytes c \<and>
   Cache_Len (fst (Cache_Get c k)) = Cache_Len c \<and>
   cache (fst (Cache_Get c k)) = cache c \<and>
   dom (cache (fst (Cache_Get c k))) = dom (cache c) \<and>
   elemValue (fst (Cache_Get c k)) = elemValue c \<and>
   mset (ll (fst (Cache_Get c k))) = mset (ll c) \<and>
   maxBytes (fst (Cache_Get c k)) = maxBytes c \<and>
   evicted (fst (Cache_Get c k)) = evicted c"
  by (simp add: Cache_Get_def Cache_Len_def mset_MoveToFront length_MoveToFront
      split: option.split)

text \<open>
  On a present key, the store step of \<^verbatim>\<open>Add\<close> leaves \<^verbatim>\<open>nbytes\<close> as it was, whatever
  the sizes of the old and the new value: the difference is taken between the new
  value and itself.
\<close>

lemma Add_store_present_nbytes:
  "cache c k = Some ele \<Longrightarrow> nbytes (Add_store c k v) = nbytes c"
  by (simp add: Add_store_def Let_def)

text \<open>
  Claim C1. \<^verbatim>\<open>nbytes\<close> is meant to be the sum of \<^verbatim>\<open>len(key) + value.Len()\<close> over the
  stored entries, and \<^verbatim>\<open>Add\<close> of a present key to change it by the new size minus the
  old one. The code does not: in an unbounded cache, \<^verbatim>\<open>Add("k", "a")\<close> followed by
  \<^verbatim>\<open>Add("k", "abc")\<close> leaves \<^verbatim>\<open>nbytes = 2\<close> while the one stored entry has 4 bytes.
\<close>

theorem Cache_Add_present_nbytes_stale:
  "map_option (\<lambda>c. (nbytes c, stored_bytes c, Cache_Len c))
     (Option.bind (Cache_Add (lru_New 0 False) ''k'' \<lparr>b = ''a''\<rparr>)
        (\<lambda>c. Cache_Add c ''k'' \<lparr>b = ''abc''\<rparr>)) = Some (2, 4, 1)"
  by (simp add: lru_defs Add_evict.simps)

subsection \<open>The eviction loop\<close>

lemma entry_bytes_nonneg: "0 \<le> entry_bytes kv"
  by (simp add: entry_bytes_def ByteView_Len_def)

lemma stored_bytes_nonneg: "0 \<le> stored_bytes c"
  unfolding stored_bytes_def by (induction "ll c" arbitrary: c) (auto intro!: sum_list_nonneg entry_bytes_nonneg)

lemma RemoveOldest_empty: "ll c = [] \<Longrightarrow> RemoveOldest c = c"
  by (simp add: RemoveOldest_def Back_def)

lemma RemoveOldest_maxBytes: "maxBytes (RemoveOldest c) = maxBytes c"
  by (simp add: RemoveOldest_def Back_def Let_def)

lemma RemoveOldest_elemValue: "elemValue (RemoveOldest c) = elemValue c"
  by (simp add: RemoveOldest_def Back_def Let_def)

lemma RemoveOldest_nextElem: "nextElem (RemoveOldest c) = nextElem c"
  by (simp add: RemoveOldest_def Back_def Let_def)

lemma remove1_last: "distinct xs \<Longrightarrow> xs \<noteq> [] \<Longrightarrow> remove1 (last xs) xs = butlast xs"
  by (induction xs) auto

lemma RemoveOldest_ll: "distinct (ll c) \<Longrightarrow> ll (RemoveOldest c) = butlast (ll c)"
  by (cases "ll c = []") (simp_all add: RemoveOldest_def Back_def Let_def remove1_last)

lemma RemoveOldest_nbytes:
  "ll c \<noteq> [] \<Longrightarrow> nbytes (RemoveOldest c) = nbytes c - entry_bytes (elemValue c (last (ll c)))"
  by (simp add: RemoveOldest_def Back_def Let_def entry_bytes_def)

lemma RemoveOldest_stored_bytes:
  assumes "distinct (ll c)" "ll c \<noteq> []"
  shows "stored_bytes (RemoveOldest c) = stored_bytes c - entry_bytes (elemValue c (last (ll c)))"
proof -
  have "ll c = butlast (ll c) @ [last (ll c)]" using assms(2) by simp
  then have "stored_bytes c =
      (\<Sum>e\<leftarrow>butlast (ll c). entry_bytes (elemValue c e)) + entry_bytes (elemValue c (last (ll c)))"
    unfolding stored_bytes_def by (metis (no_types, lifting) map_append sum_list_append list.map sum_list.Cons sum_list.Nil add.right_neutral)
  then show ?thesis
    by (simp add: stored_bytes_def RemoveOldest_ll [OF assms(1)] RemoveOldest_elemValue)
qed

lemma Add_evict_stop:
  "\<not> (maxBytes c \<noteq> 0 \<and> maxBytes c < nbytes c) \<Longrightarrow> Add_evict c = Some c"
  by (subst Add_evict.simps) auto

lemma Add_evict_step:
  "maxBytes c \<noteq> 0 \<Longrightarrow> maxBytes c < nbytes c \<Longrightarrow> Add_evict c = Add_evict (RemoveOldest c)"
  by (subst Add_evict.simps) simp

lemma Add_evict_loop:
  assumes "distinct (ll c)"
    and "maxBytes c \<noteq> 0 \<longrightarrow> nbytes c - stored_bytes c \<le> maxBytes c"
  shows "\<exists>n\<le>length (ll c). Add_evict c = Some ((RemoveOldest ^^ n) c) \<and>
           (\<forall>m<n. maxBytes c < nbytes ((RemoveOldest ^^ m) c)) \<and>
           \<not> (maxBytes c \<noteq> 0 \<and> maxBytes c < nbytes ((RemoveOldest ^^ n) c)) \<and>
           ll ((RemoveOldest ^^ n) c) = take (length (ll c) - n) (ll c)"
  using assms
proof (induction "length (ll c)" arbitrary: c)
  case 0
  then have e: "ll c = []" by simp
  then have "stored_bytes c = 0" by (simp add: stored_bytes_def)
  with 0 have "\<not> (maxBytes c \<noteq> 0 \<and> maxBytes c < nbytes c)" by auto
  then have "Add_evict c = Some c" by (rule Add_evict_stop)
  with e \<open>\<not> (maxBytes c \<noteq> 0 \<and> maxBytes c < nbytes c)\<close> show ?case
    by (intro exI [of _ 0]) simp
next
  case (Suc l)
  show ?case
  proof (cases "maxBytes c \<noteq> 0 \<and> maxBytes c < nbytes c")
    case False
    then have "Add_evict c = Some c" by (rule Add_evict_stop)
    with False show ?thesis by (intro exI [of _ 0]) simp
  next
    case True
    let ?c = "RemoveOldest c"
    have ne: "ll c \<noteq> []" using Suc.hyps(2) by auto
    have d: "distinct (ll c)" by (rule Suc.prems(1))
    have l: "ll ?c = butlast (ll c)" by (rule RemoveOldest_ll [OF d])
    have 1: "l = length (ll ?c)" using Suc.hyps(2) l by simp
    have 2: "distinct (ll ?c)" using d l by (simp add: distinct_butlast)
    have 3: "maxBytes ?c \<noteq> 0 \<longrightarrow> nbytes ?c - stored_bytes ?c \<le> maxBytes ?c"
      using Suc.prems(2) by (simp add: RemoveOldest_maxBytes RemoveOldest_nbytes [OF ne] RemoveOldest_stored_bytes [OF d ne])
    from Suc.hyps(1) [OF 1 2 3] obtain n where n: "n \<le> length (ll ?c)"
      "Add_evict ?c = Some ((RemoveOldest ^^ n) ?c)"
      "\<forall>m<n. maxBytes ?c < nbytes ((RemoveOldest ^^ m) ?c)"
      "\<not> (maxBytes ?c \<noteq> 0 \<and> maxBytes ?c < nbytes ((RemoveOldest ^^ n) ?c))"
      "ll ((RemoveOldest ^^ n) ?c) = take (length (ll ?c) - n) (ll ?c)"
      by blast
    have a: "Add_evict c = Some ((RemoveOldest ^^ Suc n) c)"
      using True n(2) by (simp add: Add_evict_step funpow_swap1)
    have b: "\<forall>m<Suc n. maxBytes c < nbytes ((RemoveOldest ^^ m) c)"
    proof (intro allI impI)
      fix m assume "m < Suc n"
      then show "maxBytes c < nbytes ((RemoveOldest ^^ m) c)"
        using True n(3) by (cases m) (auto simp: funpow_swap1 RemoveOldest_maxBytes)
    qed
    have c': "\<not> (maxBytes c \<noteq> 0 \<and> maxBytes c < nbytes ((RemoveOldest ^^ Suc n) c))"
      using n(4) by (simp add: funpow_swap1 RemoveOldest_maxBytes)
    have e: "ll ((RemoveOldest ^^ Suc n) c) = take (length (ll c) - Suc n) (ll c)"
      using n(5) n(1) l by (simp add: funpow_swap1 butlast_conv_take)
    have "Suc n \<le> length (ll c)" using n(1) 1 Suc.hyps(2) by linarith
    with a b c' e show ?thesis by blast
  qed
qed


lemma sum_list_fun_upd_fresh:
  "e \<notin> set xs \<Longrightarrow> (\<Sum>x\<leftarrow>xs. g (if x = e then y else f x)) = (\<Sum>x\<leftarrow>xs. (g (f x) :: int))"
  by (induction xs) auto

lemma Add_store_maxBytes: "maxBytes (Add_store c k v) = maxBytes c"
  by (simp add: Add_store_def Let_def split: option.split)

lemma Add_store_distinct:
  "Cache_inv c \<Longrightarrow> distinct (ll (Add_store c k v))"
  by (auto simp: Cache_inv_def Add_store_def Let_def MoveToFront_def split: option.split)

lemma Add_store_fresh:
  "Cache_inv c \<Longrightarrow> \<forall>e\<in>set (ll (Add_store c k v)). e < nextElem (Add_store c k v)"
  by (auto simp: Cache_inv_def Add_store_def Let_def MoveToFront_def split: option.split)

lemma Add_store_residue:
  assumes "Cache_inv c"
  shows "nbytes (Add_store c k v) - stored_bytes (Add_store c k v) \<le> nbytes c"
proof (cases "cache c k")
  case None
  have f: "nextElem c \<notin> set (ll c)" using assms by (auto simp: Cache_inv_def)
  have "stored_bytes (Add_store c k v) = entry_bytes \<lparr>key = k, value = v\<rparr> + stored_bytes c"
    using None by (simp add: Add_store_def Let_def stored_bytes_def sum_list_fun_upd_fresh [OF f])
  moreover have "nbytes (Add_store c k v) = nbytes c + entry_bytes \<lparr>key = k, value = v\<rparr>"
    using None by (simp add: Add_store_def Let_def entry_bytes_def)
  ultimately show ?thesis using stored_bytes_nonneg [of c] by simp
next
  case (Some ele)
  then show ?thesis
    using stored_bytes_nonneg [of "Add_store c k v"] by (simp add: Add_store_present_nbytes)
qed

lemma Cache_Add_loop:
  assumes "Cache_inv c" and "0 \<le> maxBytes c"
  shows "\<exists>n\<le>length (ll (Add_store c k v)).
           Cache_Add c k v = Some ((RemoveOldest ^^ n) (Add_store c k v)) \<and>
           (\<forall>m<n. maxBytes c < nbytes ((RemoveOldest ^^ m) (Add_store c k v))) \<and>
           \<not> (maxBytes c \<noteq> 0 \<and> maxBytes c < nbytes ((RemoveOldest ^^ n) (Add_store c k v))) \<and>
           ll ((RemoveOldest ^^ n) (Add_store c k v)) =
             take (length (ll (Add_store c k v)) - n) (ll (Add_store c k v))"
proof -
  let ?s = "Add_store c k v"
  have "maxBytes ?s \<noteq> 0 \<longrightarrow> nbytes ?s - stored_bytes ?s \<le> maxBytes ?s"
  proof
    assume "maxBytes ?s \<noteq> 0"
    then have "nbytes c \<le> maxBytes c"
      using assms by (simp add: Cache_inv_def Add_store_maxBytes)
    then show "nbytes ?s - stored_bytes ?s \<le> maxBytes ?s"
      using Add_store_residue [OF assms(1), of k v] by (simp add: Add_store_maxBytes)
  qed
  from Add_evict_loop [OF Add_store_distinct [OF assms(1)] this]
  show ?thesis by (simp add: Cache_Add_def Add_store_maxBytes)
qed


lemma Add_store_absent_Len:
  "cache c k = None \<Longrightarrow> Cache_Len (Add_store c k v) = Cache_Len c + 1"
  by (simp add: Add_store_def Let_def Cache_Len_def)

lemma Add_store_present_Len:
  "cache c k = Some ele \<Longrightarrow> Cache_Len (Add_store c k v) = Cache_Len c"
  by (simp add: Add_store_def Let_def Cache_Len_def length_MoveToFront)

lemma Add_store_evicted: "evicted (Add_store c k v) = evicted c"
  by (simp add: Add_store_def Let_def split: option.split)

lemma Add_store_dom: "dom (cache (Add_store c k v)) = insert k (dom (cache c))"
  by (auto simp: Add_store_def Let_def split: option.splits)

lemma Cache_Add_unbounded:
  "maxBytes c = 0 \<Longrightarrow> Cache_Add c k v = Some (Add_store c k v)"
  by (simp add: Cache_Add_def Add_evict_stop Add_store_maxBytes)

lemma Add_all_unbounded:
  "maxBytes c = 0 \<Longrightarrow> distinct (map fst kvs) \<Longrightarrow> fst ` set kvs \<inter> dom (cache c) = {} \<Longrightarrow>
   map_option Cache_Len (Add_all c kvs) = Some (Cache_Len c + int (length kvs))"
proof (induction kvs arbitrary: c)
  case Nil
  then show ?case by simp
next
  case (Cons kv kvs)
  obtain k v where kv: "kv = (k, v)" by (cases kv)
  let ?s = "Add_store c k v"
  have n: "cache c k = None" using Cons.prems(3) kv by auto
  have "map_option Cache_Len (Add_all ?s kvs) = Some (Cache_Len ?s + int (length kvs))"
    using Cons.prems kv by (intro Cons.IH) (auto simp: Add_store_maxBytes Add_store_dom)
  then show ?case
    using Cons.prems(1) kv n by (auto simp: Cache_Add_unbounded Add_store_absent_Len)
qed

lemma Cache_inv_New: "Cache_inv (lru_New mb f)"
  by (simp add: Cache_inv_def lru_New_def)

lemma Cache_inv_Get: "Cache_inv c \<Longrightarrow> Cache_inv (fst (Cache_Get c k))"
  by (auto simp: Cache_inv_def Cache_Get_def MoveToFront_def split: option.split)

lemma RemoveOldest_links:
  assumes "distinct (ll c)" "\<forall>e\<in>set (ll c). e < nextElem c"
  shows "distinct (ll (RemoveOldest c)) \<and> (\<forall>e\<in>set (ll (RemoveOldest c)). e < nextElem (RemoveOldest c))"
  using assms by (auto simp: RemoveOldest_ll RemoveOldest_nextElem distinct_butlast dest: in_set_butlastD)

lemma Cache_inv_RemoveOldest:
  assumes "Cache_inv c"
  shows "Cache_inv (RemoveOldest c)"
proof (cases "ll c = []")
  case True
  then show ?thesis using assms by (simp add: RemoveOldest_empty)
next
  case False
  have "nbytes (RemoveOldest c) \<le> nbytes c"
    using entry_bytes_nonneg [of "elemValue c (last (ll c))"] by (simp add: RemoveOldest_nbytes [OF False])
  then show ?thesis
    using assms RemoveOldest_links [of c] by (auto simp: Cache_inv_def RemoveOldest_maxBytes)
qed

lemma Add_evict_inv:
  assumes "Add_evict c = Some c'"
  shows "distinct (ll c) \<and> (\<forall>e\<in>set (ll c). e < nextElem c) \<longrightarrow> Cache_inv c'"
proof (rule Add_evict.raw_induct
    [where P = "\<lambda>c c'. distinct (ll c) \<and> (\<forall>e\<in>set (ll c). e < nextElem c) \<longrightarrow> Cache_inv c'"])
  show "Add_evict c = Some c'" by (rule assms)
next
  fix loop :: "Cache \<Rightarrow> Cache option" and c c'
  assume IH: "\<And>c c'. loop c = Some c' \<Longrightarrow>
      distinct (ll c) \<and> (\<forall>e\<in>set (ll c). e < nextElem c) \<longrightarrow> Cache_inv c'"
    and eq: "(if maxBytes c \<noteq> 0 \<and> maxBytes c < nbytes c then loop (RemoveOldest c) else Some c) = Some c'"
  show "distinct (ll c) \<and> (\<forall>e\<in>set (ll c). e < nextElem c) \<longrightarrow> Cache_inv c'"
  proof (cases "maxBytes c \<noteq> 0 \<and> maxBytes c < nbytes c")
    case True
    with eq have "loop (RemoveOldest c) = Some c'" by simp
    from IH [OF this] show ?thesis using RemoveOldest_links [of c] by blast
  next
    case False
    with eq have "c' = c" by auto
    with False show ?thesis by (auto simp: Cache_inv_def)
  qed
qed

lemma Cache_inv_Add:
  assumes "Cache_inv c" and "Cache_Add c k v = Some c'"
  shows "Cache_inv c'"
proof -
  have "Add_evict (Add_store c k v) = Some c'" using assms(2) by (simp add: Cache_Add_def)
  from Add_evict_inv [OF this] Add_store_distinct [OF assms(1)] Add_store_fresh [OF assms(1)]
  show ?thesis by blast
qed

lemma Cache_reachable_inv: "Cache_reachable c \<Longrightarrow> Cache_inv c"
proof (induction rule: Cache_reachable.induct)
  case (reach_New mb f)
  show ?case by (rule Cache_inv_New)
next
  case (reach_Get c k)
  then show ?case by (simp add: Cache_inv_Get)
next
  case (reach_Add c k v c')
  then show ?case using Cache_inv_Add by blast
next
  case (reach_RemoveOldest c)
  then show ?case by (simp add: Cache_inv_RemoveOldest)
qed

lemma lru_two_reached:
  "Add_all (lru_New 10 False) [(''k1'', \<lparr>b = ''v1''\<rparr>), (''k2'', \<lparr>b = ''v2''\<rparr>)] = Some lru_two"
  by (simp add: lru_defs lru_two_def Add_evict.simps)

text \<open>
  Claim C3. In a state between calls (\<open>Cache_inv\<close>), \<^verbatim>\<open>Add(k, v)\<close> with
  \<^verbatim>\<open>maxBytes > 0\<close> returns, and it is the store step followed by \<open>n\<close> calls of
  \<^verbatim>\<open>RemoveOldest\<close>, for the one \<open>n\<close> such that \<^verbatim>\<open>nbytes > maxBytes\<close> held before
  each of them and \<^verbatim>\<open>nbytes \<le> maxBytes\<close> holds after the last: the loop goes on while
  the budget is exceeded, each round unlinks the element at the back, and \<open>n\<close> can be
  more than 1. With \<^verbatim>\<open>maxBytes = 0\<close>, \<^verbatim>\<open>Add\<close> is the store step alone: nothing is
  evicted, \<^verbatim>\<open>Len()\<close> grows by one for every key not yet present, and so adding
  any number of distinct keys to a new unbounded cache gives a \<^verbatim>\<open>Len()\<close> of that number.
\<close>

theorem Cache_Add_eviction:
  "Cache_inv c \<Longrightarrow>
   (0 < maxBytes c \<longrightarrow>
      (\<exists>n\<le>length (ll (Add_store c k v)).
         Cache_Add c k v = Some ((RemoveOldest ^^ n) (Add_store c k v)) \<and>
         (\<forall>m<n. maxBytes c < nbytes ((RemoveOldest ^^ m) (Add_store c k v))) \<and>
         nbytes ((RemoveOldest ^^ n) (Add_store c k v)) \<le> maxBytes c \<and>
         ll ((RemoveOldest ^^ n) (Add_store c k v)) =
           take (length (ll (Add_store c k v)) - n) (ll (Add_store c k v)))) \<and>
   (maxBytes c = 0 \<longrightarrow>
      Cache_Add c k v = Some (Add_store c k v) \<and>
      evicted (Add_store c k v) = evicted c \<and>
      Cache_Len (Add_store c k v) = (if cache c k = None then Cache_Len c + 1 else Cache_Len c)) \<and>
   (distinct (map fst kvs) \<longrightarrow>
      map_option Cache_Len (Add_all (lru_New 0 f) kvs) = Some (int (length kvs)))"
proof (intro conjI impI)
  assume i: "Cache_inv c" and m: "0 < maxBytes c"
  from Cache_Add_loop [OF i, of k v] m
  show "\<exists>n\<le>length (ll (Add_store c k v)).
         Cache_Add c k v = Some ((RemoveOldest ^^ n) (Add_store c k v)) \<and>
         (\<forall>m<n. maxBytes c < nbytes ((RemoveOldest ^^ m) (Add_store c k v))) \<and>
         nbytes ((RemoveOldest ^^ n) (Add_store c k v)) \<le> maxBytes c \<and>
         ll ((RemoveOldest ^^ n) (Add_store c k v)) =
           take (length (ll (Add_store c k v)) - n) (ll (Add_store c k v))"
    by force
next
  assume "maxBytes c = 0"
  then show "Cache_Add c k v = Some (Add_store c k v)" by (rule Cache_Add_unbounded)
next
  show "evicted (Add_store c k v) = evicted c" by (rule Add_store_evicted)
next
  show "Cache_Len (Add_store c k v) = (if cache c k = None then Cache_Len c + 1 else Cache_Len c)"
    by (cases "cache c k") (simp_all add: Add_store_absent_Len Add_store_present_Len)
next
  assume "distinct (map fst kvs)"
  then show "map_option Cache_Len (Add_all (lru_New 0 f) kvs) = Some (int (length kvs))"
    using Add_all_unbounded [of "lru_New 0 f" kvs] by (simp add: lru_New_def Cache_Len_def)
qed


theorem Cache_Add_eviction_witness:
  "Cache_inv lru_two \<and> 0 < maxBytes lru_two \<and>
   Cache_Add lru_two ''k3'' \<lparr>b = ''vvvvvvv''\<rparr> =
     Some ((RemoveOldest ^^ 2) (Add_store lru_two ''k3'' \<lparr>b = ''vvvvvvv''\<rparr>)) \<and>
   map_option (\<lambda>c. (nbytes c, ll c, dom (cache c))) (Cache_Add lru_two ''k3'' \<lparr>b = ''vvvvvvv''\<rparr>) =
     Some (9, [2], {''k3''}) \<and>
   Cache_Add (lru_New 0 False) ''k1'' \<lparr>b = ''v1''\<rparr> = Some (Add_store (lru_New 0 False) ''k1'' \<lparr>b = ''v1''\<rparr>) \<and>
   map_option Cache_Len
     (Add_all (lru_New 0 False) [(''k1'', \<lparr>b = ''v1''\<rparr>), (''k2'', \<lparr>b = ''v2''\<rparr>), (''k3'', \<lparr>b = ''v3''\<rparr>)]) = Some 3"
proof -
  let ?v = "\<lparr>b = ''vvvvvvv''\<rparr>"
  let ?s = "Add_store lru_two ''k3'' ?v"
  have i: "Cache_inv lru_two" by (simp add: Cache_inv_def lru_two_def)
  have mb: "maxBytes lru_two = 10" by (simp add: lru_two_def)
  have m: "0 < maxBytes lru_two" by (simp add: mb)
  have i0: "Cache_inv (lru_New 0 False)" by (rule Cache_inv_New)
  have m0: "maxBytes (lru_New 0 False) = 0" by (simp add: lru_New_def)
  have n0: "nbytes ?s = 17" by (simp add: lru_defs lru_two_def)
  have n1: "nbytes (RemoveOldest ?s) = 13" by (simp add: lru_defs lru_two_def)
  have n2: "nbytes (RemoveOldest (RemoveOldest ?s)) = 9" by (simp add: lru_defs lru_two_def)
  have l2: "ll (RemoveOldest (RemoveOldest ?s)) = [2]" by (simp add: lru_defs lru_two_def)
  have d2: "dom (cache (RemoveOldest (RemoveOldest ?s))) = {''k3''}"
    by (simp add: lru_defs lru_two_def)
  have f2: "(RemoveOldest ^^ 2) ?s = RemoveOldest (RemoveOldest ?s)"
    by (simp add: numeral_2_eq_2)
  note t = Cache_Add_eviction [OF i, of "''k3''" "?v" "[]" False]
  from t have "0 < maxBytes lru_two \<longrightarrow>
      (\<exists>n\<le>length (ll ?s).
         Cache_Add lru_two ''k3'' ?v = Some ((RemoveOldest ^^ n) ?s) \<and>
         (\<forall>m<n. maxBytes lru_two < nbytes ((RemoveOldest ^^ m) ?s)) \<and>
         nbytes ((RemoveOldest ^^ n) ?s) \<le> maxBytes lru_two \<and>
         ll ((RemoveOldest ^^ n) ?s) = take (length (ll ?s) - n) (ll ?s))"
    by (rule conjunct1)
  from this [rule_format, OF m]
  obtain n where n: "Cache_Add lru_two ''k3'' ?v = Some ((RemoveOldest ^^ n) ?s)"
    "\<forall>m<n. maxBytes lru_two < nbytes ((RemoveOldest ^^ m) ?s)"
    "nbytes ((RemoveOldest ^^ n) ?s) \<le> maxBytes lru_two"
    by blast
  have "\<not> 2 < n"
  proof
    assume "2 < n"
    with n(2) have "maxBytes lru_two < nbytes ((RemoveOldest ^^ 2) ?s)" by blast
    then show False by (simp add: f2 n2 mb)
  qed
  moreover have "n \<noteq> 0"
  proof
    assume "n = 0"
    with n(3) have "nbytes ?s \<le> maxBytes lru_two" by simp
    then show False by (simp add: n0 mb)
  qed
  moreover have "n \<noteq> 1"
  proof
    assume "n = 1"
    with n(3) have "nbytes (RemoveOldest ?s) \<le> maxBytes lru_two" by simp
    then show False by (simp add: n1 mb)
  qed
  ultimately have "n = 2" by linarith
  with n(1) have a: "Cache_Add lru_two ''k3'' ?v = Some ((RemoveOldest ^^ 2) ?s)" by simp
  have b: "Cache_Add (lru_New 0 False) ''k1'' \<lparr>b = ''v1''\<rparr> = Some (Add_store (lru_New 0 False) ''k1'' \<lparr>b = ''v1''\<rparr>)"
    using Cache_Add_eviction [of "lru_New 0 False" "''k1''" "\<lparr>b = ''v1''\<rparr>" "[]" False] i0 m0
    by blast
  have "distinct (map fst [(''k1'', \<lparr>b = ''v1''\<rparr>), (''k2'', \<lparr>b = ''v2''\<rparr>), (''k3'', \<lparr>b = ''v3''\<rparr>)])"
    by simp
  with Cache_Add_eviction [of "lru_New 0 False" "''k1''" "\<lparr>b = ''v1''\<rparr>"
        "[(''k1'', \<lparr>b = ''v1''\<rparr>), (''k2'', \<lparr>b = ''v2''\<rparr>), (''k3'', \<lparr>b = ''v3''\<rparr>)]" False] i0
  have c: "map_option Cache_Len
     (Add_all (lru_New 0 False) [(''k1'', \<lparr>b = ''v1''\<rparr>), (''k2'', \<lparr>b = ''v2''\<rparr>), (''k3'', \<lparr>b = ''v3''\<rparr>)]) = Some 3"
    by simp
  show ?thesis
    using i m a b c n2 l2 d2 by (simp add: f2)
qed

text \<open>
  The guard of the loop is \<^verbatim>\<open>maxBytes != 0\<close>, so a negative \<^verbatim>\<open>maxBytes\<close> is a bound as
  well, and one that an empty list does not meet: the loop then calls \<^verbatim>\<open>RemoveOldest\<close>
  on the empty list for ever, and \<^verbatim>\<open>Add\<close> does not return.
\<close>

lemma Add_evict_spins:
  assumes "ll c = []" and "maxBytes c \<noteq> 0" and "maxBytes c < nbytes c"
  shows "Add_evict c = None"
proof (rule ccontr)
  assume "Add_evict c \<noteq> None"
  then obtain c' where r: "Add_evict c = Some c'" by auto
  have "\<not> (ll c = [] \<and> maxBytes c \<noteq> 0 \<and> maxBytes c < nbytes c)"
  proof (rule Add_evict.raw_induct
      [where P = "\<lambda>c c'. \<not> (ll c = [] \<and> maxBytes c \<noteq> 0 \<and> maxBytes c < nbytes c)"])
    show "Add_evict c = Some c'" by (rule r)
  next
    fix loop :: "Cache \<Rightarrow> Cache option" and c c'
    assume IH: "\<And>c c'. loop c = Some c' \<Longrightarrow>
        \<not> (ll c = [] \<and> maxBytes c \<noteq> 0 \<and> maxBytes c < nbytes c)"
      and eq: "(if maxBytes c \<noteq> 0 \<and> maxBytes c < nbytes c then loop (RemoveOldest c) else Some c) = Some c'"
    show "\<not> (ll c = [] \<and> maxBytes c \<noteq> 0 \<and> maxBytes c < nbytes c)"
    proof
      assume a: "ll c = [] \<and> maxBytes c \<noteq> 0 \<and> maxBytes c < nbytes c"
      with eq have "loop c = Some c'" by (simp add: RemoveOldest_empty)
      from IH [OF this] a show False by blast
    qed
  qed
  with assms show False by blast
qed

lemma Cache_Add_negative_maxBytes:
  "Cache_Add (lru_New (- 1) False) ''k'' \<lparr>b = ''v''\<rparr> = None"
proof -
  let ?s = "Add_store (lru_New (- 1) False) ''k'' \<lparr>b = ''v''\<rparr>"
  have "Add_evict ?s = Add_evict (RemoveOldest ?s)"
    by (rule Add_evict_step) (simp_all add: lru_defs)
  also have "\<dots> = None"
    by (rule Add_evict_spins) (simp_all add: lru_defs)
  finally show ?thesis by (simp add: Cache_Add_def)
qed

section \<open>The consistent-hash ring: properties\<close>

subsection \<open>The binary search\<close>

text \<open>
  On a predicate that stays true once it is true, the search returns the least index
  at which it holds, or \<open>n\<close> when there is none.
\<close>

lemma Search_loop_spec:
  assumes "i \<le> j" "j \<le> n"
    and "\<forall>k<i. \<not> f k" and "\<forall>k. j \<le> k \<and> k < n \<longrightarrow> f k"
    and mono: "\<forall>a b. a \<le> b \<and> b < n \<and> f a \<longrightarrow> f b"
  shows "i \<le> Search_loop f i j \<and> Search_loop f i j \<le> j \<and>
         (\<forall>k<Search_loop f i j. \<not> f k) \<and>
         (\<forall>k. Search_loop f i j \<le> k \<and> k < n \<longrightarrow> f k)"
  using assms
proof (induction f i j rule: Search_loop.induct)
  case (1 f i j)
  note le = \<open>i \<le> j\<close> and jn = \<open>j \<le> n\<close> and lo = \<open>\<forall>k<i. \<not> f k\<close>
    and hi = \<open>\<forall>k. j \<le> k \<and> k < n \<longrightarrow> f k\<close>
    and mono = \<open>\<forall>a b. a \<le> b \<and> b < n \<and> f a \<longrightarrow> f b\<close>
  show ?case
  proof (cases "i < j")
    case False
    then have "Search_loop f i j = i" by (subst Search_loop.simps) simp
    moreover from False le have "i = j" by simp
    ultimately show ?thesis using lo hi by simp
  next
    case True
    define h where "h = (i + j) div 2"
    have h: "i \<le> h" "h < j" using True by (auto simp: h_def)
    show ?thesis
    proof (cases "f h")
      case False
      have lo': "\<forall>k<h + 1. \<not> f k"
      proof (intro allI impI)
        fix k assume "k < h + 1"
        then have kh: "k \<le> h" by simp
        have hn: "h < n" using h(2) jn by simp
        show "\<not> f k"
        proof
          assume "f k"
          with kh hn have "k \<le> h \<and> h < n \<and> f k" by simp
          from mono [rule_format, OF this] False show False by simp
        qed
      qed
      have le': "h + 1 \<le> j" using h(2) by simp
      note IH = "1.IH"(1) [OF True h_def False le' jn lo' hi mono]
      have eq: "Search_loop f i j = Search_loop f (h + 1) j"
        using True False by (subst Search_loop.simps) (simp add: Let_def h_def)
      from IH have "i \<le> Search_loop f (h + 1) j" using h(1) by linarith
      with IH show ?thesis unfolding eq by blast
    next
      case fh: True
      have hi': "\<forall>k. h \<le> k \<and> k < n \<longrightarrow> f k"
      proof (intro allI impI)
        fix k assume "h \<le> k \<and> k < n"
        with fh have "h \<le> k \<and> k < n \<and> f h" by simp
        from mono [rule_format, OF this] show "f k" .
      qed
      have hn: "h \<le> n" using h(2) jn by simp
      have nn: "\<not> \<not> f h" using fh by simp
      note IH = "1.IH"(2) [OF True h_def nn h(1) hn lo hi' mono]
      have eq: "Search_loop f i j = Search_loop f i h"
        using True fh by (subst Search_loop.simps) (simp add: Let_def h_def)
      from IH have "Search_loop f i h \<le> j" using h(2) by linarith
      with IH show ?thesis unfolding eq by blast
    qed
  qed
qed

lemma SearchInts_spec:
  assumes "sorted a"
  shows "SearchInts a x \<le> length a \<and> (\<forall>k<SearchInts a x. a ! k < x) \<and>
         (\<forall>k. SearchInts a x \<le> k \<and> k < length a \<longrightarrow> x \<le> a ! k)"
proof -
  have mono: "\<forall>i j. i \<le> j \<and> j < length a \<and> x \<le> a ! i \<longrightarrow> x \<le> a ! j"
  proof (intro allI impI)
    fix i j assume a: "i \<le> j \<and> j < length a \<and> x \<le> a ! i"
    then have "a ! i \<le> a ! j" using assms by (simp add: sorted_nth_mono)
    with a show "x \<le> a ! j" by simp
  qed
  have 1: "(0::nat) \<le> length a" and 2: "length a \<le> length a"
    and 3: "\<forall>k<0::nat. \<not> x \<le> a ! k"
    and 4: "\<forall>k. length a \<le> k \<and> k < length a \<longrightarrow> x \<le> a ! k"
    by simp_all
  from Search_loop_spec [of 0 "length a" "length a" "\<lambda>i. x \<le> a ! i", OF 1 2 3 4 mono]
  show ?thesis unfolding SearchInts_def Search_def by (simp add: not_le)
qed


lemma Map_Add_sorted: "sorted (keys (Map_Add m ks))"
  by (simp add: Map_Add_def Let_def)


lemma sorted_take_drop: "sorted xs \<Longrightarrow> sorted (take i xs @ drop (Suc i) xs)"
proof -
  assume s: "sorted xs"
  then have "sorted (take i xs @ drop i xs)" by simp
  then have c: "\<forall>x\<in>set (take i xs). \<forall>y\<in>set (drop i xs). x \<le> y"
    unfolding sorted_append by blast
  have "set (drop (Suc i) xs) \<subseteq> set (drop i xs)" by (simp add: set_drop_subset_set_drop)
  with c have "\<forall>x\<in>set (take i xs). \<forall>y\<in>set (drop (Suc i) xs). x \<le> y" by blast
  with s show ?thesis by (simp add: sorted_append sorted_wrt_take sorted_wrt_drop)
qed

lemma Remove_replica_Inr:
  assumes "Remove_replica node i m = Inr m'"
  shows "hash m' = hash m \<and> replicas m' = replicas m \<and> set (keys m') \<subseteq> set (keys m) \<and>
         (sorted (keys m) \<longrightarrow> sorted (keys m'))"
proof -
  let ?idx = "SearchInts (keys m) (virtual_hash m node i)"
  from assms have m': "m' = m\<lparr>keys := take ?idx (keys m) @ drop (Suc ?idx) (keys m),
      hashMap := (hashMap m)(virtual_hash m node i := None)\<rparr>"
    by (auto simp: Remove_replica_def Let_def split: if_splits)
  have "set (take ?idx (keys m) @ drop (Suc ?idx) (keys m)) \<subseteq> set (keys m)"
    using set_take_subset [of ?idx "keys m"] set_drop_subset [of "Suc ?idx" "keys m"] by auto
  then show ?thesis by (simp add: m' sorted_take_drop)
qed

lemma Remove_loop_Inr:
  "Remove_loop node is m = Inr m' \<Longrightarrow>
   hash m' = hash m \<and> replicas m' = replicas m \<and> set (keys m') \<subseteq> set (keys m) \<and>
   (sorted (keys m) \<longrightarrow> sorted (keys m'))"
proof (induction "is" arbitrary: m)
  case Nil
  then show ?case by simp
next
  case (Cons i "is")
  from Cons.prems obtain m1 where 1: "Remove_replica node i m = Inr m1"
    and 2: "Remove_loop node is m1 = Inr m'"
    by (auto split: sum.splits)
  from Remove_replica_Inr [OF 1] Cons.IH [OF 2] show ?case by auto
qed

text \<open>The ring of every reachable state is sorted.\<close>

lemma Map_reachable_sorted: "Map_reachable m \<Longrightarrow> sorted (keys m)"
proof (induction rule: Map_reachable.induct)
  case (reach_ring_New ChecksumIEEE r fn)
  show ?case by (simp add: consistenthash_New_def)
next
  case (reach_ring_Add m ks)
  show ?case by (rule Map_Add_sorted)
next
  case (reach_ring_Remove m node m')
  then show ?case using Remove_loop_Inr [of node "replica_indices m" m m']
    by (simp add: Map_Remove_def)
qed

lemma keys_ring642: "keys ring642 = [2, 4, 6, 12, 14, 16, 22, 24, 26]"
  by code_simp

lemma replica_indices_ring642: "replica_indices ring642 = [0, 1, 2]"
  by code_simp

subsection \<open>Get\<close>

text \<open>
  Claim C4. On an empty ring \<^verbatim>\<open>Get\<close> returns the empty string. On a non-empty sorted
  ring (every reachable ring is sorted) of \<open>N\<close> hashes it returns
  \<^verbatim>\<open>hashMap[keys[i mod N]]\<close>, where \<open>i\<close> is the least index whose hash is at least the
  hash of the key, and \<open>N\<close> when there is none: every hash before \<open>i\<close> is smaller, every
  hash from \<open>i\<close> on is not. The result depends on the hash function, the ring and
  the map only.
\<close>

theorem Map_Get_spec:
  "sorted (keys m) \<Longrightarrow>
   (keys m = [] \<longrightarrow> Map_Get m k = []) \<and>
   (keys m \<noteq> [] \<longrightarrow>
      (\<exists>i\<le>length (keys m).
         (\<forall>j<i. keys m ! j < uint (hash m k)) \<and>
         (\<forall>j. i \<le> j \<and> j < length (keys m) \<longrightarrow> uint (hash m k) \<le> keys m ! j) \<and>
         Map_Get m k = hashMap_at m (keys m ! (i mod length (keys m))))) \<and>
   (hash m' = hash m \<and> keys m' = keys m \<and> hashMap m' = hashMap m \<longrightarrow>
      Map_Get m' k = Map_Get m k)"
proof (intro conjI impI)
  assume "keys m = []"
  then show "Map_Get m k = []" by (simp add: Map_Get_def)
next
  assume s: "sorted (keys m)" and ne: "keys m \<noteq> []"
  let ?i = "SearchInts (keys m) (uint (hash m k))"
  have "Map_Get m k = hashMap_at m (keys m ! (?i mod length (keys m)))"
    using ne by (simp add: Map_Get_def SearchInts_def Let_def)
  with SearchInts_spec [OF s, of "uint (hash m k)"]
  show "\<exists>i\<le>length (keys m).
         (\<forall>j<i. keys m ! j < uint (hash m k)) \<and>
         (\<forall>j. i \<le> j \<and> j < length (keys m) \<longrightarrow> uint (hash m k) \<le> keys m ! j) \<and>
         Map_Get m k = hashMap_at m (keys m ! (i mod length (keys m)))"
    by blast
next
  assume "hash m' = hash m \<and> keys m' = keys m \<and> hashMap m' = hashMap m"
  then show "Map_Get m' k = Map_Get m k"
    by (simp add: Map_Get_def hashMap_at_def)
qed

theorem Map_Get_spec_witness:
  "sorted (keys ring642) \<and> keys ring642 \<noteq> [] \<and> uint (hash ring642 ''27'') = 27 \<and>
   Map_Get ring642 ''27'' = hashMap_at ring642 (keys ring642 ! (9 mod length (keys ring642))) \<and>
   Map_Get ring642 ''27'' = ''2'' \<and>
   Map_Get (consistenthash_New decimal_hash 3 None) ''27'' = []"
proof -
  have s: "sorted (keys ring642)" by (simp add: keys_ring642)
  have ne: "keys ring642 \<noteq> []" by (simp add: keys_ring642)
  have l: "length (keys ring642) = 9" by (simp add: keys_ring642)
  have h: "uint (hash ring642 ''27'') = 27" by code_simp
  have k8: "keys ring642 ! 8 = 26" by (simp add: keys_ring642)
  have e: "sorted (keys (consistenthash_New decimal_hash 3 None))"
    by (simp add: consistenthash_New_def)
  have a: "Map_Get (consistenthash_New decimal_hash 3 None) ''27'' = []"
    using Map_Get_spec [OF e, of "''27''"] by (simp add: consistenthash_New_def)
  from Map_Get_spec [OF s, of "''27''" ring642] ne
  obtain i where i: "i \<le> length (keys ring642)"
    "\<forall>j. i \<le> j \<and> j < length (keys ring642) \<longrightarrow> uint (hash ring642 ''27'') \<le> keys ring642 ! j"
    "Map_Get ring642 ''27'' = hashMap_at ring642 (keys ring642 ! (i mod length (keys ring642)))"
    by blast
  have "i = 9"
  proof (rule ccontr)
    assume "i \<noteq> 9"
    with i(1) l have "i \<le> 8 \<and> 8 < length (keys ring642)" by simp
    with i(2) have "uint (hash ring642 ''27'') \<le> keys ring642 ! 8" by blast
    then show False by (simp add: h k8)
  qed
  with i(3) have b: "Map_Get ring642 ''27'' =
      hashMap_at ring642 (keys ring642 ! (9 mod length (keys ring642)))" by simp
  have c: "hashMap_at ring642 (keys ring642 ! (9 mod length (keys ring642))) = ''2''"
    by code_simp
  show ?thesis using s ne h a b c by simp
qed

subsection \<open>Add followed by Remove\<close>

lemma virtual_hash_keys_update [simp]:
  "virtual_hash (m\<lparr>keys := ks\<rparr>) = virtual_hash m"
  by (intro ext) (simp add: virtual_hash_def)

lemma virtual_hash_hashMap_update [simp]:
  "virtual_hash (m\<lparr>hashMap := hm\<rparr>) = virtual_hash m"
  by (intro ext) (simp add: virtual_hash_def)

lemma fold_Add_replica:
  "fold (Add_replica node) is m =
     m\<lparr>keys := keys m @ map (virtual_hash m node) is,
       hashMap := fold (\<lambda>i hm. hm(virtual_hash m node i \<mapsto> node)) is (hashMap m)\<rparr>"
  by (induction "is" arbitrary: m) (simp_all add: Add_replica_def Let_def)

lemma Map_Add_single:
  "Map_Add m [node] =
     m\<lparr>keys := sort (keys m @ map (virtual_hash m node) (replica_indices m)),
       hashMap := fold (\<lambda>i hm. hm(virtual_hash m node i \<mapsto> node)) (replica_indices m) (hashMap m)\<rparr>"
  by (simp add: Map_Add_def fold_Add_replica Let_def)

lemma remove1_nth:
  "i < length xs \<Longrightarrow> xs ! i \<notin> set (take i xs) \<Longrightarrow>
   remove1 (xs ! i) xs = take i xs @ drop (Suc i) xs"
proof -
  assume a: "i < length xs" "xs ! i \<notin> set (take i xs)"
  then have "xs = take i xs @ xs ! i # drop (Suc i) xs" by (simp add: id_take_nth_drop)
  then have "remove1 (xs ! i) xs = remove1 (xs ! i) (take i xs @ xs ! i # drop (Suc i) xs)"
    by simp
  also have "\<dots> = take i xs @ drop (Suc i) xs"
    using a(2) by (simp add: remove1_append)
  finally show ?thesis .
qed

lemma SearchInts_present:
  assumes "sorted a" "x \<in> set a"
  shows "SearchInts a x < length a \<and> a ! SearchInts a x = x \<and>
         x \<notin> set (take (SearchInts a x) a)"
proof -
  let ?i = "SearchInts a x"
  note sp = SearchInts_spec [OF assms(1), of x]
  from assms(2) obtain p where p: "p < length a" "a ! p = x" by (auto simp: in_set_conv_nth)
  have ip: "?i \<le> p"
  proof (rule ccontr)
    assume "\<not> ?i \<le> p"
    then have "p < ?i" by simp
    with sp have "a ! p < x" by blast
    with p show False by simp
  qed
  with p have il: "?i < length a" by simp
  from sp il have "x \<le> a ! ?i" by blast
  moreover have "a ! ?i \<le> a ! p" using assms(1) ip p(1) by (simp add: sorted_nth_mono)
  ultimately have eq: "a ! ?i = x" using p(2) by simp
  have "x \<notin> set (take ?i a)"
  proof
    assume "x \<in> set (take ?i a)"
    then obtain q where "q < ?i" "a ! q = x" using il by (auto simp: in_set_conv_nth)
    with sp show False by force
  qed
  with il eq show ?thesis by simp
qed

lemma Remove_replica_present:
  assumes "sorted (keys m)" "virtual_hash m node i \<in> set (keys m)"
  shows "Remove_replica node i m =
     Inr (m\<lparr>keys := remove1 (virtual_hash m node i) (keys m),
            hashMap := (hashMap m)(virtual_hash m node i := None)\<rparr>)"
proof -
  let ?h = "virtual_hash m node i"
  let ?i = "SearchInts (keys m) ?h"
  from SearchInts_present [OF assms] have p: "?i < length (keys m)" "keys m ! ?i = ?h"
    "?h \<notin> set (take ?i (keys m))" by simp_all
  have "remove1 ?h (keys m) = take ?i (keys m) @ drop (Suc ?i) (keys m)"
    using remove1_nth [of ?i "keys m"] p by simp
  with p(1) show ?thesis by (simp add: Remove_replica_def Let_def)
qed


lemma Remove_loop_present:
  assumes "sorted (keys m)" "mset (map (virtual_hash m node) is) \<subseteq># mset (keys m)"
  shows "\<exists>ks. Remove_loop node is m =
           Inr (m\<lparr>keys := ks,
                  hashMap := fold (\<lambda>i hm. hm(virtual_hash m node i := None)) is (hashMap m)\<rparr>) \<and>
           sorted ks \<and> mset ks = mset (keys m) - mset (map (virtual_hash m node) is)"
  using assms
proof (induction "is" arbitrary: m)
  case Nil
  then show ?case by (intro exI [of _ "keys m"]) simp
next
  case (Cons i "is")
  let ?h = "virtual_hash m node i"
  let ?m = "m\<lparr>keys := remove1 ?h (keys m), hashMap := (hashMap m)(?h := None)\<rparr>"
  have hin: "?h \<in> set (keys m)"
    using Cons.prems(2) by (metis list.simps(9) mset.simps(2) insert_subset_eq_iff set_mset_mset)
  have r: "Remove_replica node i m = Inr ?m"
    by (rule Remove_replica_present [OF Cons.prems(1) hin])
  have s: "sorted (keys ?m)" using Cons.prems(1) by (simp add: sorted_remove1)
  have sub: "mset (map (virtual_hash ?m node) is) \<subseteq># mset (keys ?m)"
    using Cons.prems(2) hin by (simp add: insert_subset_eq_iff)
  from Cons.IH [OF s sub] obtain ks where ks:
    "Remove_loop node is ?m =
       Inr (?m\<lparr>keys := ks,
              hashMap := fold (\<lambda>i hm. hm(virtual_hash ?m node i := None)) is (hashMap ?m)\<rparr>)"
    "sorted ks" "mset ks = mset (keys ?m) - mset (map (virtual_hash ?m node) is)"
    by blast
  have "Remove_loop node (i # is) m =
      Inr (m\<lparr>keys := ks,
             hashMap := fold (\<lambda>i hm. hm(virtual_hash m node i := None)) (i # is) (hashMap m)\<rparr>)"
    using r ks(1) by simp
  moreover have "mset ks = mset (keys m) - mset (map (virtual_hash m node) (i # is))"
    using ks(3) by (simp add: multiset_eq_iff)
  ultimately show ?case using ks(2) by blast
qed

lemma fold_delete_apply:
  "fold (\<lambda>i hm. hm(g i := None)) is hm x = (if x \<in> g ` set is then None else hm x)"
  by (induction "is" arbitrary: hm) auto

lemma fold_insert_apply:
  "fold (\<lambda>i hm. hm(g i \<mapsto> v)) is hm x = (if x \<in> g ` set is then Some v else hm x)"
  by (induction "is" arbitrary: hm) auto

lemma fold_delete_insert:
  assumes "\<forall>i\<in>set is. g i \<notin> dom hm"
  shows "fold (\<lambda>i hm. hm(g i := None)) is (fold (\<lambda>i hm. hm(g i \<mapsto> v)) is hm) = hm"
proof
  fix x
  show "fold (\<lambda>i hm. hm(g i := None)) is (fold (\<lambda>i hm. hm(g i \<mapsto> v)) is hm) x = hm x"
    using assms by (auto simp: fold_delete_apply fold_insert_apply domIff)
qed

text \<open>
  Claim C6, as amended. On a sorted ring (every reachable ring is), when no
  virtual-node hash of the node \<open>node\<close> is a key of \<^verbatim>\<open>hashMap\<close>, \<^verbatim>\<open>Add(node)\<close> followed by
  \<^verbatim>\<open>Remove(node)\<close> returns without a panic and gives back the state before: the same
  \<^verbatim>\<open>keys\<close> and the same \<^verbatim>\<open>hashMap\<close>.
\<close>

theorem Map_Add_Remove_roundtrip:
  assumes "sorted (keys m)"
    and "\<forall>i\<in>set (replica_indices m). virtual_hash m node i \<notin> dom (hashMap m)"
  shows "Map_Remove (Map_Add m [node]) node = Inr m"
proof -
  let ?is = "replica_indices m"
  let ?hs = "map (virtual_hash m node) ?is"
  let ?a = "Map_Add m [node]"
  have a: "?a = m\<lparr>keys := sort (keys m @ ?hs),
       hashMap := fold (\<lambda>i hm. hm(virtual_hash m node i \<mapsto> node)) ?is (hashMap m)\<rparr>"
    by (rule Map_Add_single)
  have ri: "replica_indices ?a = ?is" by (simp add: a replica_indices_def)
  have vh: "virtual_hash ?a node = virtual_hash m node" by (simp add: a)
  have s: "sorted (keys ?a)" by (simp add: a)
  have "mset ?hs \<subseteq># mset (keys ?a)" by (simp add: a)
  then have sub: "mset (map (virtual_hash ?a node) ?is) \<subseteq># mset (keys ?a)"
    by (simp only: vh)
  from Remove_loop_present [OF s sub] obtain ks where ks:
    "Remove_loop node ?is ?a =
       Inr (?a\<lparr>keys := ks,
              hashMap := fold (\<lambda>i hm. hm(virtual_hash ?a node i := None)) ?is (hashMap ?a)\<rparr>)"
    "sorted ks" "mset ks = mset (keys ?a) - mset (map (virtual_hash ?a node) ?is)"
    by blast
  have "mset ks = mset (keys m)" using ks(3) by (simp add: a)
  then have "sort (keys m) = ks" using ks(2) by (rule properties_for_sort)
  then have k: "ks = keys m" using assms(1) by (simp add: sort_key_id_if_sorted)
  have h: "fold (\<lambda>i hm. hm(virtual_hash ?a node i := None)) ?is (hashMap ?a) = hashMap m"
    unfolding vh using fold_delete_insert [OF assms(2), of node] by (simp add: a)
  have "Map_Remove ?a node = Remove_loop node ?is ?a" by (simp add: Map_Remove_def ri)
  also have "\<dots> = Inr (?a\<lparr>keys := keys m, hashMap := hashMap m\<rparr>)"
    using ks(1) by (simp only: k h)
  also have "?a\<lparr>keys := keys m, hashMap := hashMap m\<rparr> = m" by (simp add: a)
  finally show ?thesis .
qed


theorem Map_Add_Remove_roundtrip_witness:
  "sorted (keys ring642) \<and>
   map (\<lambda>i. hashMap ring642 (virtual_hash ring642 ''8'' i)) (replica_indices ring642) =
     [None, None, None] \<and>
   Map_Remove (Map_Add ring642 [''8'']) ''8'' = Inr ring642"
proof -
  have s: "sorted (keys ring642)" by (simp add: keys_ring642)
  have 0: "hashMap ring642 (virtual_hash ring642 ''8'' 0) = None" by code_simp
  have 1: "hashMap ring642 (virtual_hash ring642 ''8'' 1) = None" by code_simp
  have 2: "hashMap ring642 (virtual_hash ring642 ''8'' 2) = None" by code_simp
  have f: "\<forall>i\<in>set (replica_indices ring642). virtual_hash ring642 ''8'' i \<notin> dom (hashMap ring642)"
    by (simp add: replica_indices_ring642 domIff 0 1 2)
  from Map_Add_Remove_roundtrip [OF s f] s 0 1 2 show ?thesis
    by (simp add: replica_indices_ring642)
qed

text \<open>
  Claim C6, as stated, fails where a virtual-node hash of the node is already in the
  ring: \<^verbatim>\<open>Add\<close> overwrites the entry of \<^verbatim>\<open>hashMap\<close> and \<^verbatim>\<open>Remove\<close> deletes it. On the
  ring of the nodes 6, 4 and 2, the node \<^verbatim>\<open>"02"\<close> has the virtual-node hash 2 of the node
  \<^verbatim>\<open>"2"\<close>; after \<^verbatim>\<open>Add("02")\<close> and \<^verbatim>\<open>Remove("02")\<close> the ring has its hashes again, but
  \<^verbatim>\<open>hashMap\<close> has lost the hash 2.
\<close>

theorem Map_Add_Remove_collision:
  "Map_Remove (Map_Add ring642 [''02'']) ''02'' \<noteq> Inr ring642 \<and>
   map_sum id (\<lambda>m. (keys m, hashMap m 2)) (Map_Remove (Map_Add ring642 [''02'']) ''02'') =
     Inr ([2, 4, 6, 12, 14, 16, 22, 24, 26], None) \<and>
   (keys ring642, hashMap ring642 2) = ([2, 4, 6, 12, 14, 16, 22, 24, 26], Some ''2'')"
proof -
  have a: "map_sum id (\<lambda>m. (keys m, hashMap m 2)) (Map_Remove (Map_Add ring642 [''02'']) ''02'') =
     Inr ([2, 4, 6, 12, 14, 16, 22, 24, 26], None)" by code_simp
  have b: "(keys ring642, hashMap ring642 2) = ([2, 4, 6, 12, 14, 16, 22, 24, 26], Some ''2'')"
    by code_simp
  have "Map_Remove (Map_Add ring642 [''02'']) ''02'' \<noteq> Inr ring642"
  proof
    assume "Map_Remove (Map_Add ring642 [''02'']) ''02'' = Inr ring642"
    with a have "hashMap ring642 2 = None" by simp
    with b show False by simp
  qed
  with a b show ?thesis by simp
qed


subsection \<open>Remove of a node that was not added\<close>






section \<open>The group: properties\<close>







text \<open>
  Claim C8. \<^verbatim>\<open>Get("")\<close> returns the error and nothing else happens: the group,
  with its cache, is as before, and no event is recorded, so that the cache is not
  read or written and neither the picker nor the loader is called.
\<close>

theorem Group_Get_empty_key:
  "Group_Get g [] = Some (Inl (Error ''key is required''), g, [])"
  by (simp add: Group_Get_def)




subsection \<open>Concurrent calls\<close>

lemma goto_simps [simp]:
  "running (goto t p s) = (running s)(t := p)" "shared (goto t p s) = shared s"
  by (simp_all add: goto_def)





text \<open>
  A goroutine that runs \<^verbatim>\<open>Get\<close> alone returns what the function \<open>Group_Get\<close> returns,
  and leaves the group it leaves.
\<close>

lemma Get_alone_sequential:
  "Option.bind (Option.bind (Get_next t (Call_Get k) (Group_start g)) (Get_alone 8 t)) (Get_result t) =
   map_option (\<lambda>(r, g', tr). (r, g')) (Group_Get g k)"
  by (auto simp: Group_start_def Get_next_def Group_Get_def Group_load_def Group_getLocally_def
      Group_populateCache_def Get_result_def after_def goto_def eval_nat_numeral Let_def
      map_option_case
      split: option.splits sum.splits prod.splits if_splits)




section \<open>The single-flight coalescer: properties\<close>

lemma jump_simps [simp]:
  "goroutine (jump t p s) = (goroutine s)(t := p)"
  "sf_mu (jump t p s) = sf_mu s" "sf_m (jump t p s) = sf_m s" "call_wg (jump t p s) = call_wg s"
  "call_val (jump t p s) = call_val s" "call_err (jump t p s) = call_err s"
  "nextCall (jump t p s) = nextCall s" "sf_events (jump t p s) = sf_events s"
  by (simp_all add: jump_def)

lemma Do_step_cases:
  assumes "Do_step t a s = Some s'"
  obtains
    (call) k where "goroutine s t = NotCalled" "a = Call_Do k" "s' = jump t (Lock1 k) s"
  | (lock1) k where "goroutine s t = Lock1 k" "a = Step" "sf_mu s = None"
      "s' = jump t (Lookup k) (s\<lparr>sf_mu := Some t\<rparr>)"
  | (found) k c where "goroutine s t = Lookup k" "a = Step" "sf_m s k = Some c"
      "s' = jump t (Unlock_found k c) s"
  | (missing) k where "goroutine s t = Lookup k" "a = Step" "sf_m s k = None"
      "s' = jump t (New_call k) s"
  | (unlock_found) k c where "goroutine s t = Unlock_found k c" "a = Step"
      "s' = jump t (Wait k c) (s\<lparr>sf_mu := None\<rparr>)"
  | (wait) k c where "goroutine s t = Wait k c" "a = Step" "call_wg s c = 0"
      "s' = jump t (Return_shared k c) s"
  | (return_shared) k c where "goroutine s t = Return_shared k c" "a = Step"
      "s' = jump t (Returned k c (call_val s c, call_err s c)) s"
  | (new_call) k where "goroutine s t = New_call k" "a = Step"
      "s' = jump t (Unlock_new k (nextCall s))
         (s\<lparr>nextCall := Suc (nextCall s), call_wg := (call_wg s)(nextCall s := 1),
            call_val := (call_val s)(nextCall s := None),
            call_err := (call_err s)(nextCall s := None),
            sf_m := (sf_m s)(k \<mapsto> nextCall s)\<rparr>)"
  | (unlock_new) k c where "goroutine s t = Unlock_new k c" "a = Step"
      "s' = jump t (Call_fn k c) (s\<lparr>sf_mu := None\<rparr>)"
  | (call_fn) k c where "goroutine s t = Call_fn k c" "a = Step"
      "s' = jump t (In_fn k c) (s\<lparr>sf_events := sf_events s @ [FnStart t k c]\<rparr>)"
  | (fn_returns) k c r where "goroutine s t = In_fn k c" "a = Fn_returns r"
      "s' = jump t (Done k c)
         (s\<lparr>call_val := (call_val s)(c := fst r), call_err := (call_err s)(c := snd r),
            sf_events := sf_events s @ [FnReturn t k c r]\<rparr>)"
  | (wg_done) k c where "goroutine s t = Done k c" "a = Step" "call_wg s c \<noteq> 0"
      "s' = jump t (Lock2 k c) (s\<lparr>call_wg := (call_wg s)(c := call_wg s c - 1)\<rparr>)"
  | (lock2) k c where "goroutine s t = Lock2 k c" "a = Step" "sf_mu s = None"
      "s' = jump t (Delete k c) (s\<lparr>sf_mu := Some t\<rparr>)"
  | (delete) k c where "goroutine s t = Delete k c" "a = Step"
      "s' = jump t (Unlock2 k c) (s\<lparr>sf_m := (sf_m s)(k := None)\<rparr>)"
  | (unlock2) k c where "goroutine s t = Unlock2 k c" "a = Step"
      "s' = jump t (Return_own k c) (s\<lparr>sf_mu := None\<rparr>)"
  | (return_own) k c where "goroutine s t = Return_own k c" "a = Step"
      "s' = jump t (Returned k c (call_val s c, call_err s c)) s"
proof (cases "goroutine s t")
  case NotCalled
  with assms show ?thesis
    by (cases a) (auto simp: Do_step_def intro: call)
next
  case (Lock1 k)
  with assms show ?thesis
    by (cases a) (auto simp: Do_step_def Let_def split: if_splits intro: lock1)
next
  case (Lookup k)
  with assms show ?thesis
    by (cases a; cases "sf_m s k") (auto simp: Do_step_def intro: found missing)
next
  case (Unlock_found k c)
  with assms show ?thesis
    by (cases a) (auto simp: Do_step_def Let_def split: if_splits intro: unlock_found)
next
  case (Wait k c)
  with assms show ?thesis
    by (cases a) (auto simp: Do_step_def Let_def split: if_splits intro: wait)
next
  case (Return_shared k c)
  with assms show ?thesis
    by (cases a) (auto simp: Do_step_def Let_def split: if_splits intro: return_shared)
next
  case (New_call k)
  with assms show ?thesis
    by (cases a) (auto simp: Do_step_def Let_def split: if_splits intro: new_call)
next
  case (Unlock_new k c)
  with assms show ?thesis
    by (cases a) (auto simp: Do_step_def Let_def split: if_splits intro: unlock_new)
next
  case (Call_fn k c)
  with assms show ?thesis
    by (cases a) (auto simp: Do_step_def Let_def split: if_splits intro: call_fn)
next
  case (In_fn k c)
  with assms show ?thesis
    by (cases a) (auto simp: Do_step_def intro: fn_returns)
next
  case (Done k c)
  with assms show ?thesis
    by (cases a) (auto simp: Do_step_def Let_def split: if_splits intro: wg_done)
next
  case (Lock2 k c)
  with assms show ?thesis
    by (cases a) (auto simp: Do_step_def Let_def split: if_splits intro: lock2)
next
  case (Delete k c)
  with assms show ?thesis
    by (cases a) (auto simp: Do_step_def Let_def split: if_splits intro: delete)
next
  case (Unlock2 k c)
  with assms show ?thesis
    by (cases a) (auto simp: Do_step_def Let_def split: if_splits intro: unlock2)
next
  case (Return_own k c)
  with assms show ?thesis
    by (cases a) (auto simp: Do_step_def Let_def split: if_splits intro: return_own)
next
  case (Returned k c r)
  with assms show ?thesis
    by (cases a) (auto simp: Do_step_def)
qed


lemma executes_call_of: "executes p = Some c \<Longrightarrow> call_of p = Some c"
  by (cases p) simp_all

lemma in_flight_executes: "in_flight p = Some (k, c) \<Longrightarrow> executes p = Some c"
  by (cases p) simp_all

lemma executes_fresh:
  "inv_alloc s \<Longrightarrow> executes (goroutine s t) = Some c \<Longrightarrow> c < nextCall s"
  by (auto simp: inv_alloc_def dest: executes_call_of)

lemma one_executes:
  "inv_one s \<Longrightarrow> executes (goroutine s t) = Some c \<Longrightarrow> executes (goroutine s t') = Some c \<Longrightarrow>
   t = t'"
  unfolding inv_one_def by blast

lemma mu_holders:
  "inv_mu s \<Longrightarrow> holds_mu (goroutine s t) \<Longrightarrow> holds_mu (goroutine s t') \<Longrightarrow> t = t'"
  unfolding inv_mu_def by (metis option.inject)

subsection \<open>The mutex\<close>

lemma inv_mu_frame:
  assumes "inv_mu s" "sf_mu s1 = sf_mu s" "goroutine s1 = goroutine s"
    and "holds_mu p \<longrightarrow> holds_mu (goroutine s t)"
  shows "inv_mu (jump t p s1)"
  using assms by (auto simp: inv_mu_def)

lemma inv_mu_acquire:
  assumes "inv_mu s" "sf_mu s = None" "sf_mu s1 = Some t" "goroutine s1 = goroutine s"
  shows "inv_mu (jump t p s1)"
  using assms by (auto simp: inv_mu_def)

lemma inv_mu_release:
  assumes "inv_mu s" "holds_mu (goroutine s t)" "\<not> holds_mu p" "goroutine s1 = goroutine s"
  shows "inv_mu (jump t p s1)"
  unfolding inv_mu_def
proof (intro allI impI)
  fix t' assume h: "holds_mu (goroutine (jump t p s1) t')"
  with assms(3,4) have "t' \<noteq> t" and "holds_mu (goroutine s t')" by (auto split: if_splits)
  with mu_holders [OF assms(1,2)] have False by blast
  then show "sf_mu (jump t p s1) = Some t'" ..
qed

lemma inv_mu_step:
  assumes "inv_mu s" "Do_step t a s = Some s'"
  shows "inv_mu s'"
  using assms(2)
  by (cases rule: Do_step_cases)
    (auto intro: inv_mu_frame [OF assms(1)] inv_mu_acquire [OF assms(1)]
      inv_mu_release [OF assms(1)])


subsection \<open>The map of calls in flight\<close>

lemma inv_absent_frame:
  assumes "inv_absent s" "sf_m s1 = sf_m s" "goroutine s1 = goroutine s"
    and "\<forall>k. p = New_call k \<longrightarrow> sf_m s k = None"
  shows "inv_absent (jump t p s1)"
  using assms by (auto simp: inv_absent_def)

lemma inv_absent_locked:
  assumes "inv_mu s" "holds_mu (goroutine s t)" "\<forall>k. p \<noteq> New_call k"
    and "goroutine s1 = goroutine s"
  shows "inv_absent (jump t p s1)"
  unfolding inv_absent_def
proof (intro allI impI)
  fix t' k assume "goroutine (jump t p s1) t' = New_call k"
  with assms(3,4) have "t' \<noteq> t" and "holds_mu (goroutine s t')" by (auto split: if_splits)
  with mu_holders [OF assms(1,2)] have False by blast
  then show "sf_m (jump t p s1) k = None" ..
qed

lemma inv_absent_step:
  assumes "inv_absent s" "inv_mu s" "Do_step t a s = Some s'"
  shows "inv_absent s'"
  using assms(3)
  by (cases rule: Do_step_cases)
    (auto intro: inv_absent_frame [OF assms(1)] inv_absent_locked [OF assms(2)])

lemma inv_entry_frame:
  assumes "inv_entry s" "sf_m s1 = sf_m s" "goroutine s1 = goroutine s"
    and "in_flight p = None \<or> in_flight p = in_flight (goroutine s t)"
  shows "inv_entry (jump t p s1)"
  using assms by (auto simp: inv_entry_def)

lemma inv_entry_insert:
  assumes "inv_entry s" "inv_absent s" "goroutine s t = New_call k"
    and "goroutine s1 = goroutine s" "sf_m s1 = (sf_m s)(k \<mapsto> c)"
  shows "inv_entry (jump t (Unlock_new k c) s1)"
  unfolding inv_entry_def
proof (intro allI impI)
  fix t' k' c'
  assume f: "in_flight (goroutine (jump t (Unlock_new k c) s1) t') = Some (k', c')"
  show "sf_m (jump t (Unlock_new k c) s1) k' = Some c'"
  proof (cases "t' = t")
    case True
    with f show ?thesis by (simp add: assms(5))
  next
    case False
    with f assms(4) have f': "in_flight (goroutine s t') = Some (k', c')" by simp
    with assms(1) have m: "sf_m s k' = Some c'" unfolding inv_entry_def by blast
    from assms(2,3) have "sf_m s k = None" unfolding inv_absent_def by blast
    with m have "k' \<noteq> k" by auto
    with m show ?thesis by (simp add: assms(5))
  qed
qed

lemma inv_entry_delete:
  assumes "inv_entry s" "inv_one s" "goroutine s t = Delete k c"
    and "goroutine s1 = goroutine s" "sf_m s1 = (sf_m s)(k := None)"
  shows "inv_entry (jump t (Unlock2 k c) s1)"
  unfolding inv_entry_def
proof (intro allI impI)
  fix t' k' c'
  assume f: "in_flight (goroutine (jump t (Unlock2 k c) s1) t') = Some (k', c')"
  then have n: "t' \<noteq> t" and f': "in_flight (goroutine s t') = Some (k', c')"
    using assms(4) by (auto split: if_splits)
  from assms(1) f' have m: "sf_m s k' = Some c'" unfolding inv_entry_def by blast
  have "k' \<noteq> k"
  proof
    assume "k' = k"
    moreover from assms(1) have "in_flight (goroutine s t) = Some (k, c) \<longrightarrow> sf_m s k = Some c"
      unfolding inv_entry_def by blast
    with assms(3) have "sf_m s k = Some c" by simp
    moreover note this
    ultimately have "c' = c" using m by simp
    with f' have "executes (goroutine s t') = Some c" by (simp add: in_flight_executes)
    moreover from assms(3) have "executes (goroutine s t) = Some c" by simp
    ultimately have "t' = t" using one_executes [OF assms(2)] by blast
    with n show False by simp
  qed
  with m show "sf_m (jump t (Unlock2 k c) s1) k' = Some c'" by (simp add: assms(5))
qed

lemma inv_entry_step:
  assumes "inv_entry s" "inv_absent s" "inv_one s" "Do_step t a s = Some s'"
  shows "inv_entry s'"
  using assms(4)
  by (cases rule: Do_step_cases)
    (auto intro: inv_entry_frame [OF assms(1)] inv_entry_insert [OF assms(1,2)]
      inv_entry_delete [OF assms(1,3)])

lemma inv_one_frame:
  assumes "inv_one s" "goroutine s1 = goroutine s"
    and "executes p = None \<or> executes p = executes (goroutine s t)"
  shows "inv_one (jump t p s1)"
  unfolding inv_one_def
proof (intro allI impI)
  fix u u' c
  assume e: "executes (goroutine (jump t p s1) u) = Some c \<and>
    executes (goroutine (jump t p s1) u') = Some c"
  have "\<And>v. executes (goroutine (jump t p s1) v) = Some c \<Longrightarrow> executes (goroutine s v) = Some c"
    using assms(2,3) by (auto split: if_splits)
  with e have "executes (goroutine s u) = Some c" "executes (goroutine s u') = Some c" by blast+
  with one_executes [OF assms(1)] show "u = u'" by blast
qed

lemma inv_one_new:
  assumes "inv_one s" "inv_alloc s" "goroutine s1 = goroutine s"
  shows "inv_one (jump t (Unlock_new k (nextCall s)) s1)"
proof -
  have "\<And>t' c. executes (goroutine s t') = Some c \<Longrightarrow> c \<noteq> nextCall s"
    using executes_fresh [OF assms(2)] by fastforce
  then show ?thesis
    using assms(1,3) unfolding inv_one_def by (auto split: if_splits)
qed

lemma inv_one_step:
  assumes "inv_one s" "inv_alloc s" "Do_step t a s = Some s'"
  shows "inv_one s'"
  using assms(3)
  by (cases rule: Do_step_cases)
    (auto intro: inv_one_frame [OF assms(1)] inv_one_new [OF assms(1,2)])

lemma inv_alloc_frame:
  assumes "inv_alloc s" "nextCall s1 = nextCall s" "sf_m s1 = sf_m s"
    and "goroutine s1 = goroutine s"
    and "call_of p = None \<or> call_of p = call_of (goroutine s t)"
  shows "inv_alloc (jump t p s1)"
  using assms unfolding inv_alloc_def by (auto split: if_splits)

lemma inv_alloc_found:
  assumes "inv_alloc s" "sf_m s k = Some c" "nextCall s1 = nextCall s" "sf_m s1 = sf_m s"
    and "goroutine s1 = goroutine s"
  shows "inv_alloc (jump t (Unlock_found k c) s1)"
  using assms unfolding inv_alloc_def by (auto split: if_splits)

lemma inv_alloc_new:
  assumes "inv_alloc s" "nextCall s1 = Suc (nextCall s)" "sf_m s1 = (sf_m s)(k \<mapsto> nextCall s)"
    and "goroutine s1 = goroutine s"
  shows "inv_alloc (jump t (Unlock_new k (nextCall s)) s1)"
  using assms unfolding inv_alloc_def by (auto simp: less_Suc_eq split: if_splits)

lemma inv_alloc_delete:
  assumes "inv_alloc s" "nextCall s1 = nextCall s" "sf_m s1 = (sf_m s)(k := None)"
    and "goroutine s1 = goroutine s" "call_of p = call_of (goroutine s t)"
  shows "inv_alloc (jump t p s1)"
  using assms unfolding inv_alloc_def by (auto split: if_splits)

lemma inv_alloc_step:
  assumes "inv_alloc s" "Do_step t a s = Some s'"
  shows "inv_alloc s'"
  using assms(2)
  by (cases rule: Do_step_cases)
    (auto intro: inv_alloc_frame [OF assms(1)] inv_alloc_new [OF assms(1)]
      inv_alloc_delete [OF assms(1)] inv_alloc_found [OF assms(1)])


subsection \<open>The results of the calls\<close>

lemma armed_executes: "armed p = Some c \<Longrightarrow> executes p = Some c"
  by (cases p) simp_all

lemma unreturned_executes: "unreturned p = Some c \<Longrightarrow> executes p = Some c"
  by (cases p) simp_all

lemma stored_executes: "stored p = Some (k, c) \<Longrightarrow> executes p = Some c"
  by (cases p) simp_all

lemma others_execute:
  assumes "inv_one s" "executes (goroutine s t) = Some c" "t' \<noteq> t"
  shows "executes (goroutine s t') \<noteq> Some c"
  using one_executes [OF assms(1,2)] assms(3) by blast

lemma inv_armed_step:
  assumes "inv_armed s" "inv_alloc s" "inv_one s" "Do_step t a s = Some s'"
  shows "inv_armed s'"
proof -
  have f: "\<And>t' c. armed (goroutine s t') = Some c \<Longrightarrow> c \<noteq> nextCall s"
    using executes_fresh [OF assms(2)] by (fastforce dest: armed_executes)
  have o: "\<And>t' k c. goroutine s t = Done k c \<Longrightarrow> t' \<noteq> t \<Longrightarrow> armed (goroutine s t') \<noteq> Some c"
    using others_execute [OF assms(3), of t] by (fastforce dest: armed_executes)
  have h: "\<forall>c. armed (goroutine s t) = Some c \<longrightarrow> call_wg s c = 1"
    using assms(1) unfolding inv_armed_def by blast
  show ?thesis
    using assms(4)
    by (cases rule: Do_step_cases)
      (use assms(1) f o h in \<open>auto simp: inv_armed_def split: if_splits\<close>)
qed


lemma inv_events_step:
  assumes "inv_events s" "inv_alloc s" "Do_step t a s = Some s'"
  shows "inv_events s'"
proof -
  have h: "\<forall>c. call_of (goroutine s t) = Some c \<longrightarrow> c < nextCall s"
    using assms(2) unfolding inv_alloc_def by blast
  show ?thesis
    using assms(3)
    by (cases rule: Do_step_cases)
      (use assms(1) h in \<open>auto simp: inv_events_def less_Suc_eq split: if_splits\<close>)
qed

lemma events_fresh:
  assumes "inv_events s"
  shows "FnStart t k (nextCall s) \<notin> set (sf_events s)"
    and "FnReturn t k (nextCall s) r \<notin> set (sf_events s)"
  using assms unfolding inv_events_def by fastforce+

lemma inv_unreturned_step:
  assumes "inv_unreturned s" "inv_events s" "inv_one s" "Do_step t a s = Some s'"
  shows "inv_unreturned s'"
proof -
  have h: "\<forall>c t' k r. unreturned (goroutine s t) = Some c \<longrightarrow> FnReturn t' k c r \<notin> set (sf_events s)"
    using assms(1) unfolding inv_unreturned_def by blast
  have f: "\<forall>t' k r. FnReturn t' k (nextCall s) r \<notin> set (sf_events s)"
    using events_fresh(2) [OF assms(2)] by blast
  have o: "\<And>t' k c. goroutine s t = In_fn k c \<Longrightarrow> t' \<noteq> t \<Longrightarrow> unreturned (goroutine s t') \<noteq> Some c"
    using others_execute [OF assms(3), of t] by (fastforce dest: unreturned_executes)
  show ?thesis
    using assms(4)
    by (cases rule: Do_step_cases)
      (use assms(1) h f o in \<open>auto simp: inv_unreturned_def split: if_splits\<close>)
qed

lemma FnReturn_step:
  assumes "Do_step t a s = Some s'"
  shows "FnReturn t' k c r \<in> set (sf_events s') \<longleftrightarrow>
         FnReturn t' k c r \<in> set (sf_events s) \<or>
         (t' = t \<and> goroutine s t = In_fn k c \<and> a = Fn_returns r)"
  using assms by (cases rule: Do_step_cases) auto

lemma inv_unique_step:
  assumes "inv_unique s" "inv_unreturned s" "Do_step t a s = Some s'"
  shows "inv_unique s'"
  unfolding inv_unique_def
proof (intro allI impI)
  fix t1 k1 r1 t2 k2 r2 c
  assume e: "FnReturn t1 k1 c r1 \<in> set (sf_events s') \<and> FnReturn t2 k2 c r2 \<in> set (sf_events s')"
  have n: "goroutine s t = In_fn k c \<Longrightarrow> FnReturn t' k' c r' \<notin> set (sf_events s)" for k t' k' r'
    using assms(2) unfolding inv_unreturned_def by (metis unreturned.simps(3))
  from e consider
      "FnReturn t1 k1 c r1 \<in> set (sf_events s)" "FnReturn t2 k2 c r2 \<in> set (sf_events s)"
    | "goroutine s t = In_fn k1 c" "FnReturn t2 k2 c r2 \<in> set (sf_events s)"
    | "goroutine s t = In_fn k2 c" "FnReturn t1 k1 c r1 \<in> set (sf_events s)"
    | "t1 = t \<and> goroutine s t = In_fn k1 c \<and> a = Fn_returns r1"
      "t2 = t \<and> goroutine s t = In_fn k2 c \<and> a = Fn_returns r2"
    unfolding FnReturn_step [OF assms(3)] by blast
  then show "t1 = t2 \<and> k1 = k2 \<and> r1 = r2"
  proof cases
    case 1
    with assms(1) show ?thesis unfolding inv_unique_def by blast
  next
    case 2
    with n show ?thesis by blast
  next
    case 3
    with n show ?thesis by blast
  next
    case 4
    then show ?thesis by auto
  qed
qed

lemma inv_waited_step:
  assumes "inv_waited s" "inv_alloc s" "inv_armed s" "Do_step t a s = Some s'"
  shows "inv_waited s'"
proof -
  have h: "\<forall>c. armed (goroutine s t) = Some c \<longrightarrow> call_wg s c = 1"
    using assms(3) unfolding inv_armed_def by blast
  have w: "\<forall>k c. goroutine s t = Return_shared k c \<longrightarrow> call_wg s c = 0"
    using assms(1) unfolding inv_waited_def by blast
  have f: "c \<noteq> nextCall s" if "goroutine s t' = Return_shared k c" for t' k c
  proof -
    from that have "call_of (goroutine s t') = Some c" by simp
    with assms(2) have "c < nextCall s" unfolding inv_alloc_def by blast
    then show ?thesis by simp
  qed
  show ?thesis
    using assms(4)
    by (cases rule: Do_step_cases)
      (use assms(1) h w f in \<open>auto simp: inv_waited_def split: if_splits\<close>)
qed


lemma inv_stored_step:
  assumes "inv_stored s" "inv_one s" "inv_alloc s" "Do_step t a s = Some s'"
  shows "inv_stored s'"
proof -
  have h: "\<forall>k c. stored (goroutine s t) = Some (k, c) \<longrightarrow>
      FnReturn t k c (call_val s c, call_err s c) \<in> set (sf_events s)"
    using assms(1) unfolding inv_stored_def by blast
  have f: "c \<noteq> nextCall s" if "stored (goroutine s t') = Some (k, c)" for t' k c
    using executes_fresh [OF assms(3), of t' c] stored_executes [OF that] by simp
  have o: "c' \<noteq> c" if "goroutine s t = In_fn k c" "t' \<noteq> t" "stored (goroutine s t') = Some (k', c')"
    for t' k c k' c'
    using others_execute [OF assms(2), of t c t'] stored_executes [OF that(3)] that(1,2) by auto
  show ?thesis
    using assms(4)
    by (cases rule: Do_step_cases)
      (use assms(1) h f o in \<open>auto simp: inv_stored_def split: if_splits\<close>)
qed

lemma inv_released_step:
  assumes "inv_released s" "inv_armed s" "inv_stored s" "Do_step t a s = Some s'"
  shows "inv_released s'"
proof -
  have h: "\<forall>c. armed (goroutine s t) = Some c \<longrightarrow> call_wg s c = 1"
    using assms(2) unfolding inv_armed_def by blast
  have st: "\<forall>k c. stored (goroutine s t) = Some (k, c) \<longrightarrow>
      FnReturn t k c (call_val s c, call_err s c) \<in> set (sf_events s)"
    using assms(3) unfolding inv_stored_def by blast
  show ?thesis
    using assms(4)
    by (cases rule: Do_step_cases)
      (use assms(1) h st in \<open>auto simp: inv_released_def less_Suc_eq split: if_splits\<close>)
qed

lemma Do_step_others:
  "Do_step t a s = Some s' \<Longrightarrow> t' \<noteq> t \<Longrightarrow> goroutine s' t' = goroutine s t'"
  by (cases rule: Do_step_cases) auto

lemma inv_returned_step:
  assumes "inv_returned s" "inv_waited s" "inv_released s" "inv_stored s" "inv_alloc s"
    and "Do_step t a s = Some s'"
  shows "inv_returned s'"
  unfolding inv_returned_def
proof (intro allI impI)
  fix u k c r
  assume g: "goroutine s' u = Returned k c r"
  have mono: "FnReturn t' k' c r \<in> set (sf_events s) \<Longrightarrow> FnReturn t' k' c r \<in> set (sf_events s')"
    for t' k'
    by (simp add: FnReturn_step [OF assms(6)])
  have "\<exists>t' k'. FnReturn t' k' c r \<in> set (sf_events s)"
  proof (cases "u = t")
    case False
    with g Do_step_others [OF assms(6)] have "goroutine s u = Returned k c r" by simp
    with assms(1) show ?thesis unfolding inv_returned_def by blast
  next
    case True
    have w: "\<forall>k c. goroutine s t = Return_shared k c \<longrightarrow>
        (\<exists>t' k'. FnReturn t' k' c (call_val s c, call_err s c) \<in> set (sf_events s))"
    proof (intro allI impI)
      fix k c assume g: "goroutine s t = Return_shared k c"
      with assms(2) have "call_wg s c = 0" unfolding inv_waited_def by blast
      moreover from g have "call_of (goroutine s t) = Some c" by simp
      with assms(5) have "c < nextCall s" unfolding inv_alloc_def by blast
      ultimately show "\<exists>t' k'. FnReturn t' k' c (call_val s c, call_err s c) \<in> set (sf_events s)"
        using assms(3) unfolding inv_released_def by blast
    qed
    have st: "\<forall>k c. stored (goroutine s t) = Some (k, c) \<longrightarrow>
        FnReturn t k c (call_val s c, call_err s c) \<in> set (sf_events s)"
      using assms(4) unfolding inv_stored_def by blast
    from assms(6) g True show ?thesis
      by (cases rule: Do_step_cases) (use w st in \<open>auto split: if_splits\<close>)
  qed
  with mono show "\<exists>t' k'. FnReturn t' k' c r \<in> set (sf_events s')" by blast
qed

lemma sf_inv_init: "sf_inv sf_init"
  by (simp add: sf_inv_def sf_init_def inv_mu_def inv_entry_def inv_absent_def inv_one_def
      inv_alloc_def inv_armed_def inv_unreturned_def inv_events_def inv_stored_def
      inv_released_def inv_unique_def inv_waited_def inv_returned_def)

lemma sf_inv_step:
  assumes "sf_inv s" "Do_step t a s = Some s'"
  shows "sf_inv s'"
  using assms(1) unfolding sf_inv_def
  by (auto intro: inv_mu_step inv_entry_step inv_absent_step inv_one_step inv_alloc_step
      inv_armed_step inv_unreturned_step inv_events_step inv_stored_step inv_released_step
      inv_unique_step inv_waited_step inv_returned_step assms(2))

lemma sf_inv_run: "sf_inv s \<Longrightarrow> sf_run s sched = Some s' \<Longrightarrow> sf_inv s'"
proof (induction sched arbitrary: s)
  case Nil
  then show ?case by simp
next
  case (Cons x sched)
  obtain t a where x: "x = (t, a)" by (cases x)
  from Cons.prems(2) x obtain s1 where 1: "Do_step t a s = Some s1" and 2: "sf_run s1 sched = Some s'"
    by (auto simp: bind_eq_Some_conv)
  from Cons.IH [OF sf_inv_step [OF Cons.prems(1) 1] 2] show ?case .
qed

lemma sf_reachable_inv: "sf_reachable s \<Longrightarrow> sf_inv s"
  unfolding sf_reachable_def using sf_inv_run [OF sf_inv_init] by blast


text \<open>
  Once the counter of a call is 0, no step changes the counter or the results of the
  call.
\<close>

lemma released_step:
  assumes "inv_armed s" "c < nextCall s" "call_wg s c = 0" "Do_step t a s = Some s'"
  shows "call_wg s' c = 0 \<and> call_val s' c = call_val s c \<and> call_err s' c = call_err s c"
proof -
  have h: "\<forall>c'. armed (goroutine s t) = Some c' \<longrightarrow> call_wg s c' = 1"
    using assms(1) unfolding inv_armed_def by blast
  show ?thesis
    using assms(4)
    by (cases rule: Do_step_cases) (use assms(2,3) h in \<open>auto split: if_splits\<close>)
qed

lemma sf_run_append:
  "sf_run s (xs @ ys) = Option.bind (sf_run s xs) (\<lambda>s'. sf_run s' ys)"
  by (induction xs arbitrary: s) (auto split: Option.bind_split)

text \<open>
  Claim C5. In every reachable state: two goroutines that run \<^verbatim>\<open>fn\<close> for the same key
  are one goroutine; a goroutine that looks the key up while \<^verbatim>\<open>fn\<close> runs for it finds
  the call of that execution and goes on to wait for it; two goroutines that have
  returned from the same call have returned the same pair, the pair the \<^verbatim>\<open>fn\<close> of that
  call returned; the goroutine that ran \<^verbatim>\<open>fn\<close> deletes the entry of the key; and a
  goroutine that looks the key up when the map has no entry for it makes a new call
  and runs its own \<^verbatim>\<open>fn\<close>, which has not run for that call before.

  The callers that arrive during the execution do return: when a goroutine looks the
  key up while \<^verbatim>\<open>fn\<close> runs, or waits for the call, and \<^verbatim>\<open>fn\<close> then returns the pair
  \<open>x\<close>, the steps of \<^verbatim>\<open>wg.Done\<close> and \<^verbatim>\<open>wg.Wait\<close> are executable and the goroutine
  returns \<open>x\<close>. A goroutine that waits for a call whose counter is 0 can return at
  once, with the results stored in the call, and no step of another goroutine takes
  that away: it keeps waiting for the same call, the counter stays 0 and the results
  stay as they are.
\<close>

theorem Do_single_flight:
  "sf_reachable s \<Longrightarrow>
   (goroutine s t = In_fn k c \<and> goroutine s t' = In_fn k c' \<longrightarrow> t = t') \<and>
   (goroutine s t = In_fn k c \<and> goroutine s u = Lookup k \<longrightarrow>
      Do_step u Step s = Some (jump u (Unlock_found k c) s)) \<and>
   (goroutine s t = Returned k c r \<and> goroutine s t' = Returned k' c r' \<longrightarrow>
      r = r' \<and> (\<exists>e ke. FnReturn e ke c r \<in> set (sf_events s))) \<and>
   (goroutine s t = Delete k c \<longrightarrow>
      (\<exists>s'. Do_step t Step s = Some s' \<and> goroutine s' t = Unlock2 k c \<and> sf_m s' k = None)) \<and>
   (goroutine s u = Lookup k \<and> sf_m s k = None \<longrightarrow>
      (\<exists>s'. sf_run s [(u, Step), (u, Step), (u, Step), (u, Step)] = Some s' \<and>
            goroutine s' u = In_fn k (nextCall s) \<and>
            sf_events s' = sf_events s @ [FnStart u k (nextCall s)] \<and>
            (\<forall>e ke x. FnStart e ke (nextCall s) \<notin> set (sf_events s) \<and>
                      FnReturn e ke (nextCall s) x \<notin> set (sf_events s)))) \<and>
   (goroutine s t = In_fn k c \<and> goroutine s u = Lookup k \<longrightarrow>
      (\<exists>s'. sf_run s [(u, Step), (u, Step), (t, Fn_returns x), (t, Step), (u, Step), (u, Step)] =
              Some s' \<and>
            goroutine s' u = Returned k c x \<and> sf_events s' = sf_events s @ [FnReturn t k c x])) \<and>
   (goroutine s t = In_fn k c \<and> goroutine s u = Wait k c \<longrightarrow>
      (\<exists>s'. sf_run s [(t, Fn_returns x), (t, Step), (u, Step), (u, Step)] = Some s' \<and>
            goroutine s' u = Returned k c x \<and> sf_events s' = sf_events s @ [FnReturn t k c x])) \<and>
   (goroutine s u = Wait k c \<and> call_wg s c = 0 \<longrightarrow>
      (\<exists>s'. sf_run s [(u, Step), (u, Step)] = Some s' \<and>
            goroutine s' u = Returned k c (call_val s c, call_err s c)) \<and>
      (\<forall>w a s'. w \<noteq> u \<and> Do_step w a s = Some s' \<longrightarrow>
         goroutine s' u = Wait k c \<and> call_wg s' c = 0 \<and>
         call_val s' c = call_val s c \<and> call_err s' c = call_err s c))"
proof (intro conjI impI)
  assume r: "sf_reachable s"
  note i = sf_reachable_inv [OF r]
  {
    assume a: "goroutine s t = In_fn k c \<and> goroutine s t' = In_fn k c'"
    from i have e: "inv_entry s" and o: "inv_one s" by (simp_all add: sf_inv_def)
    from a have "in_flight (goroutine s t) = Some (k, c)" "in_flight (goroutine s t') = Some (k, c')"
      by simp_all
    with e have "sf_m s k = Some c" "sf_m s k = Some c'" unfolding inv_entry_def by blast+
    then have "c' = c" by simp
    with a have "executes (goroutine s t) = Some c" "executes (goroutine s t') = Some c" by simp_all
    with o show "t = t'" by (rule one_executes)
  }
  {
    assume a: "goroutine s t = In_fn k c \<and> goroutine s u = Lookup k"
    from i have e: "inv_entry s" by (simp add: sf_inv_def)
    from a have "in_flight (goroutine s t) = Some (k, c)" by simp
    with e have "sf_m s k = Some c" unfolding inv_entry_def by blast
    with a show "Do_step u Step s = Some (jump u (Unlock_found k c) s)"
      by (simp add: Do_step_def)
  }
  {
    assume a: "goroutine s t = Returned k c r \<and> goroutine s t' = Returned k' c r'"
    from i have re: "inv_returned s" and un: "inv_unique s" by (simp_all add: sf_inv_def)
    from re a obtain e ke where 1: "FnReturn e ke c r \<in> set (sf_events s)"
      unfolding inv_returned_def by blast
    from re a obtain e' ke' where 2: "FnReturn e' ke' c r' \<in> set (sf_events s)"
      unfolding inv_returned_def by blast
    from un 1 2 show "r = r'" unfolding inv_unique_def by blast
    from 1 show "\<exists>e ke. FnReturn e ke c r \<in> set (sf_events s)" by blast
  }
  {
    assume "goroutine s t = Delete k c"
    then show "\<exists>s'. Do_step t Step s = Some s' \<and> goroutine s' t = Unlock2 k c \<and> sf_m s' k = None"
      by (simp add: Do_step_def)
  }
  {
    assume a: "goroutine s u = Lookup k \<and> sf_m s k = None"
    from i have ev: "inv_events s" by (simp add: sf_inv_def)
    have "\<forall>e ke x. FnStart e ke (nextCall s) \<notin> set (sf_events s) \<and>
        FnReturn e ke (nextCall s) x \<notin> set (sf_events s)"
      using events_fresh [OF ev] by blast
    then show "\<exists>s'. sf_run s [(u, Step), (u, Step), (u, Step), (u, Step)] = Some s' \<and>
            goroutine s' u = In_fn k (nextCall s) \<and>
            sf_events s' = sf_events s @ [FnStart u k (nextCall s)] \<and>
            (\<forall>e ke x. FnStart e ke (nextCall s) \<notin> set (sf_events s) \<and>
                      FnReturn e ke (nextCall s) x \<notin> set (sf_events s))"
      using a by (simp add: Do_step_def Let_def)
  }
  {
    assume a: "goroutine s t = In_fn k c \<and> goroutine s u = Lookup k"
    from i have e: "inv_entry s" and ar: "inv_armed s" by (simp_all add: sf_inv_def)
    from a have "in_flight (goroutine s t) = Some (k, c)" "armed (goroutine s t) = Some c"
      by simp_all
    with e ar have m: "sf_m s k = Some c" and w: "call_wg s c = 1"
      unfolding inv_entry_def inv_armed_def by blast+
    from a have n: "t \<noteq> u" "u \<noteq> t" by auto
    show "\<exists>s'. sf_run s [(u, Step), (u, Step), (t, Fn_returns x), (t, Step), (u, Step), (u, Step)] =
              Some s' \<and>
            goroutine s' u = Returned k c x \<and> sf_events s' = sf_events s @ [FnReturn t k c x]"
      using a m w n by (simp add: Do_step_def Let_def)
  }
  {
    assume a: "goroutine s t = In_fn k c \<and> goroutine s u = Wait k c"
    from i have ar: "inv_armed s" by (simp add: sf_inv_def)
    from a have "armed (goroutine s t) = Some c" by simp
    with ar have w: "call_wg s c = 1" unfolding inv_armed_def by blast
    from a have n: "t \<noteq> u" "u \<noteq> t" by auto
    show "\<exists>s'. sf_run s [(t, Fn_returns x), (t, Step), (u, Step), (u, Step)] = Some s' \<and>
            goroutine s' u = Returned k c x \<and> sf_events s' = sf_events s @ [FnReturn t k c x]"
      using a w n by (simp add: Do_step_def Let_def)
  }
  {
    assume a: "goroutine s u = Wait k c \<and> call_wg s c = 0"
    then show "\<exists>s'. sf_run s [(u, Step), (u, Step)] = Some s' \<and>
            goroutine s' u = Returned k c (call_val s c, call_err s c)"
      by (simp add: Do_step_def Let_def)
    from i have ar: "inv_armed s" and al: "inv_alloc s" by (simp_all add: sf_inv_def)
    from a have "call_of (goroutine s u) = Some c" by simp
    with al have l: "c < nextCall s" unfolding inv_alloc_def by blast
    show "\<forall>w a s'. w \<noteq> u \<and> Do_step w a s = Some s' \<longrightarrow>
         goroutine s' u = Wait k c \<and> call_wg s' c = 0 \<and>
         call_val s' c = call_val s c \<and> call_err s' c = call_err s c"
    proof (intro allI impI)
      fix w a' s' assume b: "w \<noteq> u \<and> Do_step w a' s = Some s'"
      then have d: "Do_step w a' s = Some s'" and "u \<noteq> w" by auto
      from Do_step_others [OF d \<open>u \<noteq> w\<close>] a have "goroutine s' u = Wait k c" by simp
      with released_step [OF ar l _ d] a
      show "goroutine s' u = Wait k c \<and> call_wg s' c = 0 \<and>
         call_val s' c = call_val s c \<and> call_err s' c = call_err s c"
        by simp
    qed
  }
qed

theorem Do_single_flight_witness:
  "map_option (\<lambda>s. (goroutine s 0, goroutine s 1)) (sf_run sf_init sched_join) =
     Some (In_fn ''k'' 0, Lookup ''k'') \<and>
   map_option (\<lambda>s. goroutine s 1) (sf_run sf_init (sched_join @ [(1, Step)])) =
     Some (Unlock_found ''k'' 0) \<and>
   map_option (\<lambda>s. (goroutine s 0, goroutine s 1, sf_m s ''k'', sf_events s))
     (sf_run sf_init sched_done) =
     Some (Returned ''k'' 0 (Some ''v'', None), Returned ''k'' 0 (Some ''v'', None), None,
           [FnStart 0 ''k'' 0, FnReturn 0 ''k'' 0 (Some ''v'', None)]) \<and>
   map_option (\<lambda>s. (goroutine s 2, sf_events s)) (sf_run sf_init sched_again) =
     Some (In_fn ''k'' 1,
           [FnStart 0 ''k'' 0, FnReturn 0 ''k'' 0 (Some ''v'', None), FnStart 2 ''k'' 1])"
proof -
  have j: "map_option (\<lambda>s. (goroutine s 0, goroutine s 1)) (sf_run sf_init sched_join) =
     Some (In_fn ''k'' 0, Lookup ''k'')"
    by code_simp
  then obtain s where s: "sf_run sf_init sched_join = Some s"
    and g: "goroutine s 0 = In_fn ''k'' 0 \<and> goroutine s 1 = Lookup ''k''"
    by auto
  from s have "sf_reachable s" unfolding sf_reachable_def by blast
  from Do_single_flight [OF this, of 0 "''k''" 0 0 0 1] g
  have "Do_step 1 Step s = Some (jump 1 (Unlock_found ''k'' 0) s)" by blast
  with s have a: "map_option (\<lambda>s. goroutine s 1) (sf_run sf_init (sched_join @ [(1, Step)])) =
     Some (Unlock_found ''k'' 0)"
    by (simp add: sf_run_append)
  have d: "map_option (\<lambda>s. (goroutine s 0, goroutine s 1, sf_m s ''k'', sf_events s))
     (sf_run sf_init sched_done) =
     Some (Returned ''k'' 0 (Some ''v'', None), Returned ''k'' 0 (Some ''v'', None), None,
           [FnStart 0 ''k'' 0, FnReturn 0 ''k'' 0 (Some ''v'', None)])"
    by code_simp
  have n: "map_option (\<lambda>s. (goroutine s 2, sf_events s)) (sf_run sf_init sched_again) =
     Some (In_fn ''k'' 1,
           [FnStart 0 ''k'' 0, FnReturn 0 ''k'' 0 (Some ''v'', None), FnStart 2 ''k'' 1])"
    by code_simp
  from j a d n show ?thesis by blast
qed

end
